theory Spec2Isabelle
  imports Main "HOL-Library.Word" "HOL-Library.Log_Nat"
begin

unbundle bit_operations_syntax

section \<open>Strings\<close>

text \<open>
  A JavaScript string is a sequence of UTF-16 code units; \<open>text.length\<close>,
  \<open>text[i]\<close> and \<open>text.slice\<close> count code units, while \<open>Array.from(text)\<close>
  and regular expressions with the \<open>u\<close> flag walk code points (a high surrogate
  followed by a low surrogate is one element).
\<close>

type_synonym jschar = "16 word"
type_synonym jsstring = "jschar list"

definition backslash :: jschar where "backslash = 0x5C"
definition newline :: jschar where "newline = 0x0A"
definition carriageReturn :: jschar where "carriageReturn = 0x0D"
definition letter_n :: jschar where "letter_n = 0x6E"
definition hash :: jschar where "hash = 0x23"
definition space :: jschar where "space = 0x20"

definition isHighSurrogate :: "jschar \<Rightarrow> bool" where
  "isHighSurrogate c = (0xD800 \<le> c \<and> c \<le> 0xDBFF)"

definition isLowSurrogate :: "jschar \<Rightarrow> bool" where
  "isLowSurrogate c = (0xDC00 \<le> c \<and> c \<le> 0xDFFF)"

text \<open>\<open>Array.from(str)\<close> and \<open>[...str]\<close>: the string iterator, one element per code point.\<close>

fun codePoints :: "jsstring \<Rightarrow> jsstring list" where
  "codePoints [] = []"
| "codePoints [c] = [[c]]"
| "codePoints (c # d # cs) =
     (if isHighSurrogate c \<and> isLowSurrogate d then [c, d] # codePoints cs
      else [c] # codePoints (d # cs))"

text \<open>\<open>str.split('\n')\<close>: always at least one piece.\<close>

fun splitLines :: "jsstring \<Rightarrow> jsstring list" where
  "splitLines [] = [[]]"
| "splitLines (c # cs) =
     (if c = newline then [] # splitLines cs
      else (case splitLines cs of l # ls \<Rightarrow> (c # l) # ls | [] \<Rightarrow> [[c]]))"

text \<open>\<open>parts.join(sep)\<close>.\<close>

fun joinWith :: "jsstring \<Rightarrow> jsstring list \<Rightarrow> jsstring" where
  "joinWith sep [] = []"
| "joinWith sep [p] = p"
| "joinWith sep (p # q # ps) = p @ sep @ joinWith sep (q # ps)"

section \<open>Bitmap conversion module\<close>

type_synonym bitmap = "bool list list"

definition MAX_TEXT_LENGTH :: nat where "MAX_TEXT_LENGTH = 100"

subsection \<open>Escape decoding\<close>

text \<open>
  The loop of \<open>decodeEscapes\<close>: \<open>i\<close> is the loop index, \<open>result\<close> the string built so
  far. \<open>text[i + 1]\<close> is \<open>undefined\<close> exactly when \<open>i + 1\<close> is past the end.
\<close>

function decodeEscapesFrom :: "jsstring \<Rightarrow> nat \<Rightarrow> jsstring \<Rightarrow> jsstring" where
  "decodeEscapesFrom text i result =
     (if i < length text then
        (if text ! i \<noteq> backslash then decodeEscapesFrom text (i + 1) (result @ [text ! i])
         else if i + 1 < length text \<and> text ! (i + 1) = letter_n
           then decodeEscapesFrom text (i + 2) (result @ [newline])
         else if i + 1 < length text \<and> text ! (i + 1) = backslash
           then decodeEscapesFrom text (i + 2) (result @ [backslash])
         else if i + 1 < length text
           then decodeEscapesFrom text (i + 2) (result @ [backslash, text ! (i + 1)])
         else decodeEscapesFrom text (i + 1) (result @ [backslash]))
      else result)"
  by pat_completeness auto
termination
  by (relation "measure (\<lambda>(text, i, result). length text - i)") auto

declare decodeEscapesFrom.simps [simp del]

definition decodeEscapes :: "jsstring \<Rightarrow> jsstring" where
  "decodeEscapes text = decodeEscapesFrom text 0 []"

text \<open>
  The decoding as the specification words it, by cases on the front of the input:
  backslash-n, doubled backslash, backslash and any other character, a trailing
  backslash, any other character.
\<close>

fun decodeSpec :: "jsstring \<Rightarrow> jsstring" where
  "decodeSpec [] = []"
| "decodeSpec [c] = [c]"
| "decodeSpec (c # d # cs) =
     (if c \<noteq> backslash then c # decodeSpec (d # cs)
      else if d = letter_n then newline # decodeSpec cs
      else if d = backslash then backslash # decodeSpec cs
      else backslash # d # decodeSpec cs)"

subsection \<open>Input normalisation\<close>

text \<open>\<open>.replace(/\r\n/g, '\n')\<close> and \<open>.replace(/\r/g, '\n')\<close>.\<close>

fun replaceCRLF :: "jsstring \<Rightarrow> jsstring" where
  "replaceCRLF [] = []"
| "replaceCRLF [c] = [c]"
| "replaceCRLF (c # d # cs) =
     (if c = carriageReturn \<and> d = newline then newline # replaceCRLF cs
      else c # replaceCRLF (d # cs))"

definition replaceCR :: "jsstring \<Rightarrow> jsstring" where
  "replaceCR s = map (\<lambda>c. if c = carriageReturn then newline else c) s"

definition verticalizeLine :: "jsstring \<Rightarrow> jsstring" where
  "verticalizeLine line =
     (if length line = 0 then [] else joinWith [newline] (codePoints line))"

definition normalizeTextInput :: "jsstring \<Rightarrow> bool \<Rightarrow> jsstring" where
  "normalizeTextInput text vertical =
     (let decoded = decodeEscapes text;
          normalizedNewlines = replaceCR (replaceCRLF decoded)
      in if \<not> vertical then normalizedNewlines
         else joinWith [newline, newline] (map verticalizeLine (splitLines normalizedNewlines)))"

subsection \<open>Trimming\<close>

definition rowEmpty :: "bool list \<Rightarrow> bool" where
  "rowEmpty row = list_all (\<lambda>cell. \<not> cell) row"

function findStartRow :: "bitmap \<Rightarrow> nat \<Rightarrow> nat" where
  "findStartRow b startRow =
     (if startRow < length b \<and> rowEmpty (b ! startRow) then findStartRow b (startRow + 1)
      else startRow)"
  by pat_completeness auto
termination
  by (relation "measure (\<lambda>(b, startRow). length b - startRow)") auto

declare findStartRow.simps [simp del]

function findEndRow :: "bitmap \<Rightarrow> int \<Rightarrow> int" where
  "findEndRow b endRow =
     (if endRow \<ge> 0 \<and> rowEmpty (b ! nat endRow) then findEndRow b (endRow - 1)
      else endRow)"
  by pat_completeness auto
termination
  by (relation "measure (\<lambda>(b, endRow). nat (endRow + 1))") auto

declare findEndRow.simps [simp del]

text \<open>\<open>bitmap.slice(start, end)\<close> for \<open>0 \<le> start\<close>, \<open>0 \<le> end\<close>.\<close>

definition slice :: "'a list \<Rightarrow> nat \<Rightarrow> nat \<Rightarrow> 'a list" where
  "slice xs start end = take (end - start) (drop start xs)"

definition trimBitmap :: "bitmap \<Rightarrow> bitmap" where
  "trimBitmap b =
     (if length b = 0 then b
      else (let startRow = findStartRow b 0;
                endRow = findEndRow b (int (length b) - 1)
            in if int startRow > endRow then [[]]
               else slice b startRow (nat (endRow + 1))))"

subsection \<open>Fonts and line rasterisation\<close>

text \<open>
  \<open>PixelFont\<close> is declared in the font registry, which is consumed as data: a table
  from a character to its pattern rows, and three metrics, non-negative integers. The resolved font
  (\<open>getFont(fontName)\<close>) and the runtime's \<open>String.prototype.toUpperCase\<close> are
  parameters of the functions below.
\<close>

record PixelFont =
  fontMap :: "jsstring \<rightharpoonup> jsstring list"
  height :: nat
  letterSpacing :: nat
  lineSpacing :: nat

definition getCharacterPattern ::
  "(jsstring \<Rightarrow> jsstring) \<Rightarrow> jsstring \<Rightarrow> PixelFont \<Rightarrow> jsstring list" where
  "getCharacterPattern toUpperCase char font =
     (case fontMap font char of Some pattern \<Rightarrow> pattern
      | None \<Rightarrow>
     (case fontMap font (toUpperCase char) of Some pattern \<Rightarrow> pattern
      | None \<Rightarrow>
     (case fontMap font [0x3F] of Some pattern \<Rightarrow> pattern
      | None \<Rightarrow>
     (case fontMap font [0x20] of Some pattern \<Rightarrow> pattern
      | None \<Rightarrow> []))))"

text \<open>\<open>pattern.reduce((max, row) => Math.max(max, row.length), 0)\<close>.\<close>

definition patternWidth :: "jsstring list \<Rightarrow> nat" where
  "patternWidth pattern = foldl (\<lambda>m row. max m (length row)) 0 pattern"

text \<open>
  What one character pushes onto row \<open>rowIndex\<close>: \<open>width\<close> cells read from
  \<open>pattern[rowIndex] || ''\<close> (a cell past the end of the row string compares
  \<open>undefined === '#'\<close>, false), then the letter spacing unless the character is the last.
\<close>

definition pushedCells ::
  "PixelFont \<Rightarrow> jsstring list \<Rightarrow> bool \<Rightarrow> nat \<Rightarrow> bool list" where
  "pushedCells font pattern notLast rowIndex =
     (let width = patternWidth pattern;
          rowPattern = (if rowIndex < length pattern then pattern ! rowIndex else [])
      in map (\<lambda>colIndex. colIndex < length rowPattern \<and> rowPattern ! colIndex = hash)
             [0..<width]
         @ (if notLast then replicate (letterSpacing font) False else []))"

definition renderCharacter ::
  "(jsstring \<Rightarrow> jsstring) \<Rightarrow> PixelFont \<Rightarrow> nat \<Rightarrow> bitmap \<Rightarrow> nat \<times> jsstring \<Rightarrow> bitmap" where
  "renderCharacter toUpperCase font count rows ic =
     (case ic of (charIndex, char) \<Rightarrow>
        (let pattern = getCharacterPattern toUpperCase char font
         in map (\<lambda>rowIndex. rows ! rowIndex
                    @ pushedCells font pattern (charIndex < count - 1) rowIndex)
                [0..<height font]))"

definition renderLineToBitmap ::
  "(jsstring \<Rightarrow> jsstring) \<Rightarrow> jsstring \<Rightarrow> PixelFont \<Rightarrow> bitmap" where
  "renderLineToBitmap toUpperCase line font =
     (let rows = replicate (height font) [];
          characters = codePoints line
      in if length characters = 0 then rows
         else foldl (renderCharacter toUpperCase font (length characters)) rows
                (zip [0..<length characters] characters))"

subsection \<open>Merging lines\<close>

text \<open>\<open>Math.max(...lengths)\<close> of a non-empty list of lengths.\<close>

definition maxOf :: "nat list \<Rightarrow> nat" where
  "maxOf ns = foldr max ns 0"

definition firstRowLength :: "bitmap \<Rightarrow> nat" where
  "firstRowLength line = (case line of [] \<Rightarrow> 0 | row # _ \<Rightarrow> length row)"

definition padRow :: "nat \<Rightarrow> bool list \<Rightarrow> bool list" where
  "padRow width rowData = rowData @ replicate (width - length rowData) False"

definition mergeLine :: "nat \<Rightarrow> nat \<Rightarrow> nat \<Rightarrow> nat \<times> bitmap \<Rightarrow> bitmap" where
  "mergeLine width count spacing il =
     (case il of (index, lineBitmap) \<Rightarrow>
        map (padRow width) lineBitmap
        @ (if index < count - 1 \<and> spacing > 0
           then replicate spacing (replicate width False) else []))"

definition mergeLines :: "bitmap list \<Rightarrow> nat \<Rightarrow> bitmap" where
  "mergeLines lineBitmaps spacing =
     (if length lineBitmaps = 0 then [[]]
      else (let width = maxOf (map firstRowLength lineBitmaps);
                merged = concat (map (mergeLine width (length lineBitmaps) spacing)
                                   (zip [0..<length lineBitmaps] lineBitmaps))
            in trimBitmap merged))"

subsection \<open>Text to bitmap\<close>

datatype error = TextRequired | EmptyAfterSanitization

text \<open>The class \<open>[\x00-\x09\x0B-\x1F\x7F]\<close>.\<close>

definition isControl :: "jschar \<Rightarrow> bool" where
  "isControl c = (c \<le> 0x09 \<or> (0x0B \<le> c \<and> c \<le> 0x1F) \<or> c = 0x7F)"

definition sanitizeText :: "jsstring \<Rightarrow> jsstring" where
  "sanitizeText normalizedText = filter (\<lambda>c. \<not> isControl c) normalizedText"

definition truncateText :: "jsstring \<Rightarrow> jsstring" where
  "truncateText sanitizedText = slice sanitizedText 0 MAX_TEXT_LENGTH"

text \<open>
  \<open>textToBitmap\<close>; the argument is \<open>None\<close> when the caller passes no string
  (\<open>!text || typeof text !== 'string'\<close> also rejects the empty string).
\<close>

definition textToBitmap ::
  "(jsstring \<Rightarrow> jsstring) \<Rightarrow> PixelFont \<Rightarrow> jsstring option \<Rightarrow> bool \<Rightarrow> error + bitmap" where
  "textToBitmap toUpperCase font input vertical =
     (case input of None \<Rightarrow> Inl TextRequired
      | Some text \<Rightarrow>
        if text = [] then Inl TextRequired
        else (let normalizedText = normalizeTextInput text vertical;
                  sanitizedText = sanitizeText normalizedText
              in if length sanitizedText = 0 then Inl EmptyAfterSanitization
                 else (let truncatedText = truncateText sanitizedText;
                           lines = splitLines truncatedText;
                           lineBitmaps = map (\<lambda>line. renderLineToBitmap toUpperCase line font) lines
                       in Inr (mergeLines lineBitmaps (lineSpacing font)))))"

definition getBitmapDimensions :: "bitmap \<Rightarrow> nat \<times> nat" where
  "getBitmapDimensions b = (if length b = 0 then (0, 0) else (length (b ! 0), length b))"

definition validateBitmap :: "bitmap \<Rightarrow> bool" where
  "validateBitmap b =
     (if length b = 0 then True
      else (let width = length (b ! 0) in list_all (\<lambda>row. length row = width) b))"

section \<open>Numbers\<close>

text \<open>
  A JavaScript number is an IEEE 754 binary64 value, modelled by the rational it
  denotes. Each of \<open>+\<close>, \<open>*\<close> and \<open>/\<close> returns the exact result rounded to the
  nearest value with a 53-bit significand, ties to the even significand. The values
  of this program stay far inside the normal range, so overflow to infinity and
  subnormal numbers are not modelled.
\<close>

definition roundHalfEven :: "rat \<Rightarrow> int" where
  "roundHalfEven x =
     (let f = \<lfloor>x\<rfloor>; d = x - of_int f
      in if d < 1 / 2 then f else if d > 1 / 2 then f + 1 else if even f then f else f + 1)"

text \<open>The binary exponent of a positive rational: \<open>2 powi e \<le> x < 2 powi (e + 1)\<close>.\<close>

definition ilog2 :: "rat \<Rightarrow> int" where
  "ilog2 x =
     (case quotient_of x of (n, d) \<Rightarrow>
        (let k = bitlen n - bitlen d in if 2 powi k \<le> x then k else k - 1))"

definition ulpOf :: "rat \<Rightarrow> rat" where
  "ulpOf x = 2 powi (ilog2 x - 52)"

definition roundToDouble :: "rat \<Rightarrow> rat" where
  "roundToDouble x =
     (if x = 0 then 0 else of_int (roundHalfEven (x / ulpOf \<bar>x\<bar>)) * ulpOf \<bar>x\<bar>)"

definition fadd :: "rat \<Rightarrow> rat \<Rightarrow> rat" where
  "fadd a b = roundToDouble (a + b)"

definition fmul :: "rat \<Rightarrow> rat \<Rightarrow> rat" where
  "fmul a b = roundToDouble (a * b)"

definition fdiv :: "rat \<Rightarrow> rat \<Rightarrow> rat" where
  "fdiv a b = roundToDouble (a / b)"

text \<open>
  \<open>ToInt32\<close>, the conversion that \<open>&\<close> applies to its operands: truncate towards zero,
  then wrap into the signed 32-bit range.
\<close>

definition toInt32 :: "rat \<Rightarrow> int" where
  "toInt32 x = signed_take_bit 31 (if 0 \<le> x then \<lfloor>x\<rfloor> else - \<lfloor>- x\<rfloor>)"

text \<open>\<open>xs[i]\<close>: \<open>undefined\<close> (here \<open>None\<close>) outside the array.\<close>

definition arrayGet :: "'a list \<Rightarrow> int \<Rightarrow> 'a option" where
  "arrayGet xs i = (if 0 \<le> i \<and> i < int (length xs) then Some (xs ! nat i) else None)"


section \<open>Renderer module\<close>

datatype EmojiMode = Random | Row | Column | RowGradient | ColumnGradient | OtherMode

datatype Theme = Default | Github

record RenderConfig =
  foregroundEmojis :: "jsstring list"
  backgroundEmoji :: jsstring
  mode :: EmojiMode
  theme :: Theme

record BannerResult =
  resultText :: jsstring
  resultBackgroundEmoji :: jsstring
  resultBitmap :: bitmap
  resultWidth :: nat
  resultHeight :: nat

text \<open>
  What the module takes from its collaborators and from the host: the default
  background (\<open>getBackgroundEmoji()\<close>), the palette \<open>getThemeEmojis('github')\<close>, the
  grapheme segmenter \<open>Intl.Segmenter\<close> when the host has one, the Unicode property
  \<open>Extended_Pictographic\<close> on code points, and the value of
  \<open>Math.sin(row * 0.5) * Math.cos(col * 0.5) * 0.3\<close>.
\<close>

record Runtime =
  getBackgroundEmoji :: jsstring
  getThemeEmojis :: "jsstring list"
  graphemeSegmenter :: "(jsstring \<Rightarrow> jsstring list) option"
  extendedPictographic :: "nat \<Rightarrow> bool"
  spatialNoise :: "nat \<Rightarrow> nat \<Rightarrow> rat"

subsection \<open>Character classes\<close>

definition codePointValue :: "jsstring \<Rightarrow> nat" where
  "codePointValue cp =
     (case cp of
        [h, l] \<Rightarrow> 0x10000 + (unat h - 0xD800) * 0x400 + (unat l - 0xDC00)
      | [c] \<Rightarrow> unat c
      | _ \<Rightarrow> 0)"

text \<open>
  \<open>regex.test(str)\<close> for a one-character class with the \<open>u\<close> flag: some code point
  of the string is in the class. The expressions carry no \<open>g\<close> or \<open>y\<close> flag, so
  \<open>test\<close> keeps no state between calls.
\<close>

definition testClass :: "(nat \<Rightarrow> bool) \<Rightarrow> jsstring \<Rightarrow> bool" where
  "testClass cls str = list_ex (\<lambda>cp. cls (codePointValue cp)) (codePoints str)"

definition EMOJI_REGEX :: "nat \<Rightarrow> bool" where
  "EMOJI_REGEX c =
     ((0x1F300 \<le> c \<and> c \<le> 0x1FAFF) \<or> (0x1F600 \<le> c \<and> c \<le> 0x1F64F)
      \<or> (0x1F680 \<le> c \<and> c \<le> 0x1F6FF) \<or> (0x2600 \<le> c \<and> c \<le> 0x26FF)
      \<or> (0x2700 \<le> c \<and> c \<le> 0x27BF) \<or> c = 0xFE0F)"

definition WIDE_CHAR_REGEX :: "nat \<Rightarrow> bool" where
  "WIDE_CHAR_REGEX c =
     (c = 0x3000 \<or> (0x3001 \<le> c \<and> c \<le> 0x303F) \<or> (0x3040 \<le> c \<and> c \<le> 0x30FF)
      \<or> (0x3400 \<le> c \<and> c \<le> 0x4DBF) \<or> (0x4E00 \<le> c \<and> c \<le> 0x9FFF)
      \<or> (0xF900 \<le> c \<and> c \<le> 0xFAFF))"

text \<open>White space and line terminators: what \<open>trim()\<close> strips and \<open>\s\<close> matches.\<close>

definition isWhiteSpace :: "jschar \<Rightarrow> bool" where
  "isWhiteSpace c =
     ((0x09 \<le> c \<and> c \<le> 0x0D) \<or> c = 0x20 \<or> c = 0xA0 \<or> c = 0x1680
      \<or> (0x2000 \<le> c \<and> c \<le> 0x200A) \<or> c = 0x2028 \<or> c = 0x2029 \<or> c = 0x202F
      \<or> c = 0x205F \<or> c = 0x3000 \<or> c = 0xFEFF)"

definition trim :: "jsstring \<Rightarrow> jsstring" where
  "trim s = rev (dropWhile isWhiteSpace (rev (dropWhile isWhiteSpace s)))"

text \<open>The class \<open>[a-zA-Z0-9_-]\<close>.\<close>

definition isAliasChar :: "jschar \<Rightarrow> bool" where
  "isAliasChar c =
     ((0x61 \<le> c \<and> c \<le> 0x7A) \<or> (0x41 \<le> c \<and> c \<le> 0x5A) \<or> (0x30 \<le> c \<and> c \<le> 0x39)
      \<or> c = 0x5F \<or> c = 0x2D)"

definition colon :: jschar where "colon = 0x3A"

text \<open>
  \<open>/^:?[a-zA-Z0-9_-]{1,64}:?$/\<close>: a colon is not in the class, so a leading colon
  is always consumed by \<open>:?\<close> and the class matches the whole run that follows.
\<close>

definition matchesAlias :: "jsstring \<Rightarrow> bool" where
  "matchesAlias s =
     (let afterColon = (case s of c # cs \<Rightarrow> if c = colon then cs else s | [] \<Rightarrow> s);
          name = takeWhile isAliasChar afterColon;
          rest = dropWhile isAliasChar afterColon
      in 1 \<le> length name \<and> length name \<le> 64 \<and> (rest = [] \<or> rest = [colon]))"

subsection \<open>Display width\<close>

definition isLikelyCustomEmoji :: "Runtime \<Rightarrow> jsstring \<Rightarrow> bool" where
  "isLikelyCustomEmoji rt v =
     (let trimmed = trim v
      in if trimmed = [] then False
         else if testClass (extendedPictographic rt) trimmed \<or> testClass EMOJI_REGEX trimmed
                 \<or> testClass WIDE_CHAR_REGEX trimmed then False
         else matchesAlias trimmed \<and> \<not> list_ex isWhiteSpace trimmed)"

definition getGraphemes :: "Runtime \<Rightarrow> jsstring \<Rightarrow> jsstring list" where
  "getGraphemes rt str =
     (case graphemeSegmenter rt of Some segment \<Rightarrow> segment str | None \<Rightarrow> codePoints str)"

definition graphemeWidth :: "Runtime \<Rightarrow> jsstring \<Rightarrow> nat" where
  "graphemeWidth rt char =
     (if char = [0x3000] then 2
      else if testClass (extendedPictographic rt) char \<or> testClass EMOJI_REGEX char
              \<or> testClass WIDE_CHAR_REGEX char then 2
      else 1)"

definition getDisplayWidth :: "Runtime \<Rightarrow> jsstring \<Rightarrow> nat" where
  "getDisplayWidth rt str =
     (if isLikelyCustomEmoji rt str then 2
      else foldl (\<lambda>width char. width + graphemeWidth rt char) 0 (getGraphemes rt str))"

text \<open>The loop of \<open>padToWidth\<close>.\<close>

function padLoop :: "jsstring \<Rightarrow> nat \<Rightarrow> nat \<Rightarrow> jsstring" where
  "padLoop result width targetWidth =
     (if width < targetWidth then padLoop (result @ [space]) (width + 1) targetWidth
      else result)"
  by pat_completeness auto
termination
  by (relation "measure (\<lambda>(result, width, targetWidth). targetWidth - width)") auto

declare padLoop.simps [simp del]

definition padToWidth :: "Runtime \<Rightarrow> jsstring \<Rightarrow> nat \<Rightarrow> jsstring" where
  "padToWidth rt str targetWidth = padLoop str (getDisplayWidth rt str) targetWidth"

definition fitToWidth :: "Runtime \<Rightarrow> jsstring \<Rightarrow> nat \<Rightarrow> jsstring" where
  "fitToWidth rt str targetWidth =
     (let current = getDisplayWidth rt str
      in if current = targetWidth then str
         else if current < targetWidth then padToWidth rt str targetWidth
         else padToWidth rt [] targetWidth)"

subsection \<open>The seeded generator\<close>

record SeededRandom =
  seed :: nat

text \<open>The constructor; its default argument is \<open>Date.now()\<close>, here \<open>now\<close>.\<close>

definition SeededRandom_new :: "nat option \<Rightarrow> nat \<Rightarrow> SeededRandom" where
  "SeededRandom_new arg now = \<lparr> seed = (case arg of Some s \<Rightarrow> s | None \<Rightarrow> now) \<rparr>"

definition nextSeed :: "nat \<Rightarrow> nat" where
  "nextSeed s = nat (toInt32 (fadd (fmul (of_nat s) 1103515245) 12345) AND 0x7fffffff)"

definition SeededRandom_next :: "SeededRandom \<Rightarrow> rat \<times> SeededRandom" where
  "SeededRandom_next random =
     (let s = nextSeed (seed random) in (fdiv (of_nat s) 0x7fffffff, random\<lparr> seed := s \<rparr>))"

definition nextInt :: "SeededRandom \<Rightarrow> nat \<Rightarrow> int \<times> SeededRandom" where
  "nextInt random bound =
     (case SeededRandom_next random of (x, random') \<Rightarrow> (\<lfloor>fmul x (of_nat bound)\<rfloor>, random'))"

subsection \<open>Emoji selection\<close>

text \<open>
  The index of the two gradient modes, \<open>pos\<close> being the row or the column and
  \<open>totalCount\<close> the number of rows or columns.
\<close>

definition gradientIndex :: "nat \<Rightarrow> nat \<Rightarrow> nat \<Rightarrow> int" where
  "gradientIndex pos totalCount count =
     (let progress = (if totalCount > 1 then fdiv (of_nat pos) (of_nat totalCount - 1) else 0);
          emojiIndex = \<lfloor>fmul progress (of_nat count - 1)\<rfloor>
      in min emojiIndex (int count - 1))"

definition selectEmoji ::
  "jsstring list \<Rightarrow> nat \<Rightarrow> nat \<Rightarrow> nat \<Rightarrow> nat \<Rightarrow> EmojiMode \<Rightarrow> SeededRandom
     \<Rightarrow> jsstring option \<times> SeededRandom" where
  "selectEmoji emojis row col totalRows totalCols m random =
     (if length emojis = 1 then (arrayGet emojis 0, random)
      else (case m of
          Random \<Rightarrow> (case nextInt random (length emojis) of
                        (i, random') \<Rightarrow> (arrayGet emojis i, random'))
        | Row \<Rightarrow> (if length emojis = 0 then None
                   else arrayGet emojis (int (row mod length emojis)), random)
        | Column \<Rightarrow> (if length emojis = 0 then None
                      else arrayGet emojis (int (col mod length emojis)), random)
        | RowGradient \<Rightarrow> (arrayGet emojis (gradientIndex row totalRows (length emojis)), random)
        | ColumnGradient \<Rightarrow> (arrayGet emojis (gradientIndex col totalCols (length emojis)), random)
        | OtherMode \<Rightarrow> (arrayGet emojis 0, random)))"

definition calculateGitHubIntensity ::
  "Runtime \<Rightarrow> nat \<Rightarrow> nat \<Rightarrow> nat \<Rightarrow> nat \<Rightarrow> SeededRandom \<Rightarrow> int \<times> SeededRandom" where
  "calculateGitHubIntensity rt row col totalRows totalCols random =
     (case SeededRandom_next random of (baseIntensity, random') \<Rightarrow>
        (let combined = fadd baseIntensity (spatialNoise rt row col)
         in (if combined < 1 / 4 then 1 else if combined < 1 / 2 then 2
             else if combined < 3 / 4 then 3 else 4, random')))"

subsection \<open>Rendering\<close>

datatype RenderError = TypeError

text \<open>
  The inner loop over the columns of one row. \<open>bitmap[row][col]\<close> is \<open>undefined\<close>,
  hence background, past the end of a short row. A candidate that is \<open>undefined\<close>
  makes \<open>fitToWidth\<close> throw (\<open>value.trim()\<close> on \<open>undefined\<close>).
\<close>

fun renderCells ::
  "Runtime \<Rightarrow> RenderConfig \<Rightarrow> bitmap \<Rightarrow> jsstring list \<Rightarrow> nat \<Rightarrow> jsstring \<Rightarrow> nat \<Rightarrow> nat \<Rightarrow> nat
     \<Rightarrow> nat list \<Rightarrow> jsstring \<Rightarrow> SeededRandom \<Rightarrow> RenderError + jsstring \<times> SeededRandom" where
  "renderCells rt config b emojis cellWidth paddedBackground h w row [] line random =
     Inr (line, random)"
| "renderCells rt config b emojis cellWidth paddedBackground h w row (col # cols) line random =
     (if col < length (b ! row) \<and> b ! row ! col then
        (case (if theme config = Github
               then (case calculateGitHubIntensity rt row col h w random of
                       (i, random') \<Rightarrow> (arrayGet emojis i, random'))
               else selectEmoji emojis row col h w (mode config) random) of
           (None, random') \<Rightarrow> Inl TypeError
         | (Some rawEmoji, random') \<Rightarrow>
             renderCells rt config b emojis cellWidth paddedBackground h w row cols
               (line @ fitToWidth rt rawEmoji cellWidth) random')
      else renderCells rt config b emojis cellWidth paddedBackground h w row cols
             (line @ paddedBackground) random)"

text \<open>The outer loop over the rows.\<close>

fun renderLines ::
  "Runtime \<Rightarrow> RenderConfig \<Rightarrow> bitmap \<Rightarrow> jsstring list \<Rightarrow> nat \<Rightarrow> jsstring \<Rightarrow> nat \<Rightarrow> nat
     \<Rightarrow> nat list \<Rightarrow> jsstring list \<Rightarrow> SeededRandom \<Rightarrow> RenderError + jsstring list \<times> SeededRandom" where
  "renderLines rt config b emojis cellWidth paddedBackground h w [] lines random =
     Inr (lines, random)"
| "renderLines rt config b emojis cellWidth paddedBackground h w (row # rows) lines random =
     (case renderCells rt config b emojis cellWidth paddedBackground h w row [0..<w] [] random of
        Inl e \<Rightarrow> Inl e
      | Inr (line, random') \<Rightarrow>
          renderLines rt config b emojis cellWidth paddedBackground h w rows (lines @ [line]) random')"

text \<open>
  \<open>Math.max(...widths)\<close> is \<open>-Infinity\<close> for no candidates, and the cell width is then
  2, as with \<open>maxOf [] = 0\<close>.
\<close>

definition cellWidthOf :: "Runtime \<Rightarrow> jsstring list \<Rightarrow> nat" where
  "cellWidthOf rt sampleEmojis = max (maxOf (map (getDisplayWidth rt) sampleEmojis)) 2"

definition renderBitmap ::
  "Runtime \<Rightarrow> nat \<Rightarrow> bitmap \<Rightarrow> RenderConfig \<Rightarrow> RenderError + BannerResult" where
  "renderBitmap rt now b config =
     (let emojis = (if theme config = Github then getThemeEmojis rt else foregroundEmojis config);
          bgEmoji = (if backgroundEmoji config \<noteq> [] then backgroundEmoji config
                     else getBackgroundEmoji rt);
          sampleEmojis = (if theme config = Github then emojis else foregroundEmojis config);
          cellWidth = cellWidthOf rt sampleEmojis;
          paddedBackground = fitToWidth rt bgEmoji cellWidth;
          h = length b;
          w = (if h > 0 then length (b ! 0) else 0);
          random = SeededRandom_new (Some 42) now
      in (case renderLines rt config b emojis cellWidth paddedBackground h w [0..<h] [] random of
            Inl e \<Rightarrow> Inl e
          | Inr (lines, random') \<Rightarrow>
              Inr \<lparr> resultText = joinWith [newline] lines, resultBackgroundEmoji = bgEmoji,
                    resultBitmap = b, resultWidth = w, resultHeight = h \<rparr>))"


subsection \<open>Notions used to state the properties\<close>

text \<open>All rows of a grid have one common length.\<close>

definition uniformRows :: "bitmap \<Rightarrow> bool" where
  "uniformRows b = (\<exists>w. \<forall>row \<in> set b. length row = w)"

text \<open>
  Vertical mode as the specification words it: a line explodes into one character per
  output line (an empty line stays one empty line), and the groups of consecutive
  original lines are separated by one blank line.
\<close>

definition explodeLine :: "jsstring \<Rightarrow> jsstring list" where
  "explodeLine line = (if line = [] then [[]] else codePoints line)"

fun stackGroups :: "jsstring list list \<Rightarrow> jsstring list" where
  "stackGroups [] = []"
| "stackGroups [g] = g"
| "stackGroups (g # h # gs) = g @ [[]] @ stackGroups (h # gs)"

text \<open>
  A character that never reaches rasterisation: a control character other than the line
  feed and the carriage return (line-break normalisation turns a carriage return into a
  line feed, which sanitisation keeps).
\<close>

definition strippedControl :: "jschar \<Rightarrow> bool" where
  "strippedControl c = (isControl c \<and> c \<noteq> carriageReturn)"

text \<open>The largest value the generator can return is below \<open>1 - 2 powi (- 31)\<close>.\<close>

definition belowOne :: rat where
  "belowOne = 2147483647 * 2 powi (- 31)"

text \<open>
  The gradient index as the specification words it, in exact arithmetic:
  \<open>floor((pos / (total - 1)) * (N - 1))\<close> clamped to \<open>N - 1\<close>, and 0 when \<open>total\<close> is 1.
\<close>

definition gradientFormula :: "nat \<Rightarrow> nat \<Rightarrow> nat \<Rightarrow> int" where
  "gradientFormula pos totalCount count =
     (if totalCount = 1 then 0
      else min \<lfloor>(of_nat pos / (of_nat totalCount - 1)) * (of_nat count - 1) :: rat\<rfloor>
               (int count - 1))"

text \<open>
  A cell as the specification words it: the glyph padded with spaces up to the cell
  width, or blank padding of the cell width when the glyph is wider; the first
  component is the glyph that is kept, the second the number of spaces that follow it.
\<close>

definition fitCell :: "Runtime \<Rightarrow> nat \<Rightarrow> jsstring \<Rightarrow> jsstring \<times> nat" where
  "fitCell rt cellWidth glyph =
     (if getDisplayWidth rt glyph \<le> cellWidth
      then (glyph, cellWidth - getDisplayWidth rt glyph)
      else ([], cellWidth))"

definition cellText :: "jsstring \<times> nat \<Rightarrow> jsstring" where
  "cellText cell = fst cell @ replicate (snd cell) space"

text \<open>
  The display width of a cell and of a line, counted as \<open>padToWidth\<close> counts it: the
  display width of the glyph, and one column for each space of the padding.
\<close>

definition cellDisplayWidth :: "Runtime \<Rightarrow> jsstring \<times> nat \<Rightarrow> nat" where
  "cellDisplayWidth rt cell = getDisplayWidth rt (fst cell) + snd cell"

definition lineDisplayWidth :: "Runtime \<Rightarrow> (jsstring \<times> nat) list \<Rightarrow> nat" where
  "lineDisplayWidth rt cells = sum_list (map (cellDisplayWidth rt) cells)"

text \<open>
  \<open>bitmap[row][col]\<close> read as a condition: past the end of a short row it is
  \<open>undefined\<close>, hence background.
\<close>

definition isForeground :: "bitmap \<Rightarrow> nat \<Rightarrow> nat \<Rightarrow> bool" where
  "isForeground b row col = (col < length (b ! row) \<and> b ! row ! col)"

text \<open>A line made of \<open>w\<close> cells, each the result of \<open>fitToWidth\<close>.\<close>

definition cellsLine :: "Runtime \<Rightarrow> nat \<Rightarrow> nat \<Rightarrow> jsstring \<Rightarrow> bool" where
  "cellsLine rt cw w line =
     (\<exists>glyphs. length glyphs = w \<and> line = concat (map (\<lambda>g. fitToWidth rt g cw) glyphs))"

text \<open>The first \<open>n\<close> values that a generator returns.\<close>

fun draws :: "nat \<Rightarrow> SeededRandom \<Rightarrow> rat list" where
  "draws 0 random = []"
| "draws (Suc n) random =
     (case SeededRandom_next random of (x, random') \<Rightarrow> x # draws n random')"

subsection \<open>Sample data for the concrete instances\<close>

text \<open>
  An upper-casing that maps the ASCII letters and leaves every other code unit, and a
  two-row font with glyphs for \<open>A\<close>, \<open>B\<close> and \<open>?\<close>.
\<close>

definition asciiToUpperCase :: "jsstring \<Rightarrow> jsstring" where
  "asciiToUpperCase s = map (\<lambda>c. if 0x61 \<le> c \<and> c \<le> 0x7A then c - 0x20 else c) s"

definition sampleFont :: PixelFont where
  "sampleFont = \<lparr> fontMap = [[0x41] \<mapsto> [[0x23, 0x23], [0x23, 0x20]],
                               [0x42] \<mapsto> [[0x23], [0x23, 0x23, 0x23]],
                               [0x3F] \<mapsto> [[0x20], [0x23]]],
                  height = 2, letterSpacing = 1, lineSpacing = 1 \<rparr>"

text \<open>
  A host without \<open>Intl.Segmenter\<close>, with a sample pictographic range and palette, and
  a configuration whose only candidate is the alias \<open>:a:\<close>.
\<close>

definition sampleRuntime :: Runtime where
  "sampleRuntime = \<lparr> getBackgroundEmoji = [0x20],
                      getThemeEmojis = [[0x2B1C], [0x2591], [0x2592], [0x2593], [0x2588]],
                      graphemeSegmenter = None,
                      extendedPictographic = (\<lambda>c. 0x1F000 \<le> c \<and> c \<le> 0x1FAFF),
                      spatialNoise = (\<lambda>row col. 0) \<rparr>"

definition aliasConfig :: RenderConfig where
  "aliasConfig = \<lparr> foregroundEmojis = [[0x3A, 0x61, 0x3A]], backgroundEmoji = [0x20],
                    mode = Random, theme = Default \<rparr>"

text \<open>The 23 one-letter candidates \<open>A\<close> to \<open>W\<close>.\<close>

definition letters23 :: "jsstring list" where
  "letters23 = map (\<lambda>n. [0x41 + of_nat n]) [0..<23]"

section \<open>Escape decoding: the loop and the case description agree\<close>

lemma decodeEscapesFrom_drop:
  "decodeEscapesFrom t i result = result @ decodeSpec (drop i t)"
proof (induction t i result rule: decodeEscapesFrom.induct)
  case (1 t i result)
  show ?case
  proof (cases "i < length t")
    case False
    then show ?thesis by (subst decodeEscapesFrom.simps) simp
  next
    case inb: True
    then have d1: "drop i t = t ! i # drop (Suc i) t"
      by (simp add: Cons_nth_drop_Suc)
    show ?thesis
    proof (cases "Suc i < length t")
      case False
      with inb have e: "drop (Suc i) t = []" by simp
      have "decodeEscapesFrom t i result =
          (if t ! i \<noteq> backslash then decodeEscapesFrom t (i + 1) (result @ [t ! i])
           else decodeEscapesFrom t (i + 1) (result @ [backslash]))"
        using False inb by (subst decodeEscapesFrom.simps) simp
      also have "\<dots> = result @ decodeSpec (drop i t)"
        using "1.IH"(1) "1.IH"(5) False inb by (simp add: d1 e)
      finally show ?thesis .
    next
      case True
      then have d2: "drop (Suc i) t = t ! Suc i # drop (Suc (Suc i)) t"
        by (simp add: Cons_nth_drop_Suc)
      have "decodeEscapesFrom t i result =
          (if t ! i \<noteq> backslash then decodeEscapesFrom t (i + 1) (result @ [t ! i])
           else if t ! (i + 1) = letter_n then decodeEscapesFrom t (i + 2) (result @ [newline])
           else if t ! (i + 1) = backslash then decodeEscapesFrom t (i + 2) (result @ [backslash])
           else decodeEscapesFrom t (i + 2) (result @ [backslash, t ! (i + 1)]))"
        using True inb by (subst decodeEscapesFrom.simps) simp
      also have "\<dots> = result @ decodeSpec (drop i t)"
        using "1.IH"(1-4) True inb by (simp add: d1 d2)
      finally show ?thesis .
    qed
  qed
qed

lemma decodeEscapes_decodeSpec: "decodeEscapes t = decodeSpec t"
  by (simp add: decodeEscapes_def decodeEscapesFrom_drop)

lemma decodeSpec_other: "c \<noteq> backslash \<Longrightarrow> decodeSpec (c # cs) = c # decodeSpec cs"
  by (cases cs) simp_all

text \<open>The equations that evaluate the module on a concrete input.\<close>

lemmas eval_defs = textToBitmap_def normalizeTextInput_def decodeEscapes_decodeSpec
  replaceCR_def sanitizeText_def isControl_def truncateText_def slice_def MAX_TEXT_LENGTH_def
  renderLineToBitmap_def renderCharacter_def getCharacterPattern_def patternWidth_def
  pushedCells_def mergeLines_def mergeLine_def maxOf_def firstRowLength_def padRow_def
  trimBitmap_def findStartRow.simps findEndRow.simps rowEmpty_def
  backslash_def newline_def carriageReturn_def letter_n_def hash_def
  isHighSurrogate_def isLowSurrogate_def verticalizeLine_def Let_def
  asciiToUpperCase_def sampleFont_def getBitmapDimensions_def validateBitmap_def

text \<open>
  C7. Escape decoding maps backslash-n to a line break, a doubled backslash to one
  backslash, leaves any other backslash pair as the two characters it is, keeps a
  trailing unpaired backslash, and passes every other character through unchanged;
  the pairs are read left to right.
\<close>

theorem decodeEscapes_cases:
  "decodeEscapes [] = []
   \<and> (c \<noteq> backslash \<longrightarrow> decodeEscapes (c # cs) = c # decodeEscapes cs)
   \<and> decodeEscapes (backslash # letter_n # cs) = newline # decodeEscapes cs
   \<and> decodeEscapes (backslash # backslash # cs) = backslash # decodeEscapes cs
   \<and> (d \<noteq> letter_n \<and> d \<noteq> backslash \<longrightarrow>
        decodeEscapes (backslash # d # cs) = backslash # d # decodeEscapes cs)
   \<and> decodeEscapes [backslash] = [backslash]"
  by (simp add: decodeEscapes_decodeSpec decodeSpec_other backslash_def letter_n_def)

theorem decodeEscapes_cases_witness:
  "(0x41 :: jschar) \<noteq> backslash \<and> (0x74 :: jschar) \<noteq> letter_n \<and> (0x74 :: jschar) \<noteq> backslash
   \<and> decodeEscapes [0x41, 0x5C, 0x74, 0x5C, 0x6E, 0x5C, 0x5C, 0x5C] = [0x41, 0x5C, 0x74, 0x0A, 0x5C, 0x5C]"
  using decodeEscapes_cases [of "0x41" "[0x5C, 0x74, 0x5C, 0x6E, 0x5C, 0x5C, 0x5C]" "0x74"]
    decodeEscapes_cases [of "0x41" "[0x5C, 0x6E, 0x5C, 0x5C, 0x5C]" "0x74"]
    decodeEscapes_cases [of "0x41" "[0x5C, 0x5C, 0x5C]" "0x74"]
    decodeEscapes_cases [of "0x41" "[0x5C]" "0x74"]
  by (simp add: backslash_def letter_n_def newline_def)

section \<open>Trimming\<close>

lemma findStartRow_bounds: "s \<le> length b \<Longrightarrow> s \<le> findStartRow b s \<and> findStartRow b s \<le> length b"
proof (induction b s rule: findStartRow.induct)
  case (1 b s)
  show ?case
  proof (cases "s < length b \<and> rowEmpty (b ! s)")
    case True
    then have "findStartRow b s = findStartRow b (s + 1)" by (subst findStartRow.simps) simp
    with 1 True show ?thesis by simp
  next
    case False
    then have "findStartRow b s = s" by (subst findStartRow.simps) auto
    with 1 show ?thesis by simp
  qed
qed

lemma findStartRow_stop:
  "findStartRow b s < length b \<Longrightarrow> \<not> rowEmpty (b ! findStartRow b s)"
proof (induction b s rule: findStartRow.induct)
  case (1 b s)
  show ?case
  proof (cases "s < length b \<and> rowEmpty (b ! s)")
    case True
    then have "findStartRow b s = findStartRow b (s + 1)" by (subst findStartRow.simps) simp
    with 1 True show ?thesis by simp
  next
    case False
    then have "findStartRow b s = s" by (subst findStartRow.simps) auto
    with 1 False show ?thesis by simp
  qed
qed

lemma findEndRow_bounds: "e < int (length b) \<Longrightarrow> -1 \<le> e \<Longrightarrow> -1 \<le> findEndRow b e \<and> findEndRow b e \<le> e"
proof (induction b e rule: findEndRow.induct)
  case (1 b e)
  show ?case
  proof (cases "e \<ge> 0 \<and> rowEmpty (b ! nat e)")
    case True
    then have "findEndRow b e = findEndRow b (e - 1)" by (subst findEndRow.simps) simp
    with 1 True show ?thesis by simp
  next
    case False
    then have "findEndRow b e = e" by (subst findEndRow.simps) auto
    with 1 show ?thesis by simp
  qed
qed

lemma findEndRow_stop:
  "0 \<le> findEndRow b e \<Longrightarrow> \<not> rowEmpty (b ! nat (findEndRow b e))"
proof (induction b e rule: findEndRow.induct)
  case (1 b e)
  show ?case
  proof (cases "e \<ge> 0 \<and> rowEmpty (b ! nat e)")
    case True
    then have "findEndRow b e = findEndRow b (e - 1)" by (subst findEndRow.simps) simp
    with 1 True show ?thesis by simp
  next
    case False
    then have "findEndRow b e = e" by (subst findEndRow.simps) auto
    with 1 False show ?thesis by simp
  qed
qed

lemma trimBitmap_sentinel: "trimBitmap [[]] = [[]]"
  by (simp add: trimBitmap_def Let_def slice_def findStartRow.simps findEndRow.simps rowEmpty_def)

lemma trimBitmap_fixed:
  assumes "t \<noteq> []" "\<not> rowEmpty (t ! 0)" "\<not> rowEmpty (t ! (length t - 1))"
  shows "trimBitmap t = t"
proof -
  have s: "findStartRow t 0 = 0" using assms by (subst findStartRow.simps) simp
  have "nat (int (length t) - 1) = length t - 1" by simp
  then have e: "findEndRow t (int (length t) - 1) = int (length t) - 1"
    using assms by (subst findEndRow.simps) simp
  from assms(1) have "0 < length t" by simp
  then show ?thesis using assms(1) by (simp add: trimBitmap_def s e slice_def Let_def)
qed

lemma trimBitmap_twice: "trimBitmap (trimBitmap b) = trimBitmap b"
proof (cases "length b = 0")
  case True
  then show ?thesis by (simp add: trimBitmap_def)
next
  case False
  define s where "s = findStartRow b 0"
  define e where "e = findEndRow b (int (length b) - 1)"
  show ?thesis
  proof (cases "int s > e")
    case True
    then have "trimBitmap b = [[]]" using False by (simp add: trimBitmap_def s_def e_def Let_def)
    then show ?thesis by (simp add: trimBitmap_sentinel)
  next
    case le: False
    have eb: "-1 \<le> e \<and> e \<le> int (length b) - 1"
      using findEndRow_bounds [of "int (length b) - 1" b] False by (simp add: e_def)
    with le have e0: "0 \<le> e" and sl: "s < length b" by auto
    have ne: "\<not> rowEmpty (b ! nat e)" using findEndRow_stop [of b "int (length b) - 1"] e0 by (simp add: e_def)
    have ns: "\<not> rowEmpty (b ! s)" using findStartRow_stop [of b 0] sl by (simp add: s_def)
    define t where "t = slice b s (nat (e + 1))"
    have tb: "trimBitmap b = t" using False le by (simp add: trimBitmap_def s_def e_def t_def Let_def)
    have "nat (e + 1) \<le> length b" using eb by linarith
    then have len: "length t = nat (e + 1) - s" by (simp add: t_def slice_def)
    have pos: "0 < length t" using le e0 len by simp
    have t0: "t ! 0 = b ! s" using pos sl by (simp add: t_def slice_def)
    have "t ! (length t - 1) = b ! (s + (length t - 1))" using pos sl by (simp add: t_def slice_def)
    moreover have "s + (length t - 1) = nat e" using le e0 len by simp
    ultimately have tl: "t ! (length t - 1) = b ! nat e" by simp
    have "t \<noteq> []" using pos by auto
    moreover have "\<not> rowEmpty (t ! 0)" using ns t0 by simp
    moreover have "\<not> rowEmpty (t ! (length t - 1))" using ne tl by simp
    ultimately have "trimBitmap t = t" by (rule trimBitmap_fixed)
    then show ?thesis by (simp add: tb)
  qed
qed

text \<open>
  C6. Trimming is idempotent: trimming a trimmed bitmap returns it unchanged; the
  empty sentinel \<open>[[]]\<close> is a fixed point of trimming.
\<close>

theorem trimBitmap_idempotent:
  "trimBitmap (trimBitmap b) = trimBitmap b \<and> trimBitmap [[]] = [[]]"
  by (simp add: trimBitmap_twice trimBitmap_sentinel)

theorem trimBitmap_idempotent_witness:
  "trimBitmap (trimBitmap [[False], [True], [False], [False]]) = [[True]]"
  using trimBitmap_idempotent [of "[[False], [True], [False], [False]]"]
  by (simp add: eval_defs)

section \<open>Rectangular bitmaps\<close>

lemma length_pushedCells:
  "length (pushedCells font pattern notLast rowIndex) =
     patternWidth pattern + (if notLast then letterSpacing font else 0)"
  by (simp add: pushedCells_def Let_def)

lemma renderCharacter_uniform:
  assumes "length rows = height font" "uniformRows rows"
  shows "length (renderCharacter up font n rows ic) = height font
         \<and> uniformRows (renderCharacter up font n rows ic)"
proof -
  obtain charIndex char where ic: "ic = (charIndex, char)" by (cases ic)
  from assms(2) obtain w where w: "\<forall>row \<in> set rows. length row = w"
    by (auto simp: uniformRows_def)
  have "\<forall>i < height font. length (rows ! i) = w" using w assms(1) by simp
  then have "\<forall>row \<in> set (renderCharacter up font n rows ic).
      length row = w + (patternWidth (getCharacterPattern up char font)
                        + (if charIndex < n - 1 then letterSpacing font else 0))"
    by (auto simp: renderCharacter_def ic Let_def length_pushedCells)
  then have "uniformRows (renderCharacter up font n rows ic)"
    unfolding uniformRows_def by blast
  moreover have "length (renderCharacter up font n rows ic) = height font"
    by (simp add: renderCharacter_def ic Let_def)
  ultimately show ?thesis by simp
qed

lemma foldl_renderCharacter_uniform:
  "length rows = height font \<Longrightarrow> uniformRows rows \<Longrightarrow>
     length (foldl (renderCharacter up font n) rows ics) = height font
     \<and> uniformRows (foldl (renderCharacter up font n) rows ics)"
proof (induction ics arbitrary: rows)
  case Nil
  then show ?case by simp
next
  case (Cons ic ics)
  from renderCharacter_uniform [OF Cons.prems, of up n ic] Cons.IH show ?case by simp
qed

lemma renderLineToBitmap_uniform:
  "length (renderLineToBitmap up line font) = height font
   \<and> uniformRows (renderLineToBitmap up line font)"
proof -
  have "uniformRows (replicate (height font) [])" by (auto simp: uniformRows_def)
  then show ?thesis
    using foldl_renderCharacter_uniform [of "replicate (height font) []" font]
    by (simp add: renderLineToBitmap_def Let_def)
qed

lemma le_maxOf: "n \<in> set ns \<Longrightarrow> n \<le> maxOf ns"
  unfolding maxOf_def by (induction ns) auto

lemma uniformRows_firstRowLength:
  "uniformRows line \<Longrightarrow> row \<in> set line \<Longrightarrow> length row = firstRowLength line"
  by (cases line) (auto simp: uniformRows_def firstRowLength_def)

lemma mergeLine_rows:
  assumes "uniformRows line" "firstRowLength line \<le> width" "row \<in> set (mergeLine width n spacing (index, line))"
  shows "length row = width"
  using assms uniformRows_firstRowLength [OF assms(1)]
  by (auto simp: mergeLine_def padRow_def split: if_splits)

lemma trimBitmap_uniform:
  assumes "\<forall>row \<in> set b. length row = w"
  shows "uniformRows (trimBitmap b)"
proof (cases "trimBitmap b = [[]]")
  case True
  then show ?thesis by (simp add: uniformRows_def)
next
  case False
  then have "set (trimBitmap b) \<subseteq> set b"
    by (auto simp: trimBitmap_def Let_def slice_def split: if_splits dest: in_set_takeD in_set_dropD)
  with assms show ?thesis unfolding uniformRows_def by blast
qed

lemma mergeLines_uniform:
  assumes "\<forall>line \<in> set lineBitmaps. uniformRows line"
  shows "uniformRows (mergeLines lineBitmaps spacing)"
proof (cases "length lineBitmaps = 0")
  case True
  then show ?thesis by (simp add: mergeLines_def uniformRows_def)
next
  case False
  define width where "width = maxOf (map firstRowLength lineBitmaps)"
  define merged where "merged = concat (map (mergeLine width (length lineBitmaps) spacing)
                                   (zip [0..<length lineBitmaps] lineBitmaps))"
  have "\<forall>row \<in> set merged. length row = width"
  proof
    fix row assume "row \<in> set merged"
    then obtain index line where il: "(index, line) \<in> set (zip [0..<length lineBitmaps] lineBitmaps)"
      and row: "row \<in> set (mergeLine width (length lineBitmaps) spacing (index, line))"
      by (auto simp: merged_def)
    from il have mem: "line \<in> set lineBitmaps" by (rule set_zip_rightD)
    then have "firstRowLength line \<le> width" unfolding width_def by (intro le_maxOf) simp
    with assms mem row show "length row = width" by (blast intro: mergeLine_rows)
  qed
  then have "uniformRows (trimBitmap merged)" by (rule trimBitmap_uniform)
  then show ?thesis using False by (simp add: mergeLines_def Let_def width_def merged_def)
qed

lemma uniformRows_dimensions:
  "uniformRows b \<Longrightarrow> row \<in> set b \<Longrightarrow> length row = fst (getBitmapDimensions b)"
  by (cases b) (auto simp: uniformRows_def getBitmapDimensions_def)

lemma uniformRows_validate: "uniformRows b \<Longrightarrow> validateBitmap b"
  by (cases b) (auto simp: uniformRows_def validateBitmap_def Let_def list_all_iff)

lemma textToBitmap_uniform:
  "textToBitmap up font input vertical = Inr b \<Longrightarrow> uniformRows b"
  by (auto simp: textToBitmap_def Let_def renderLineToBitmap_uniform
      split: option.splits if_splits intro!: mergeLines_uniform)

text \<open>
  C5. Every bitmap returned by \<open>textToBitmap\<close> (line rasterisation, merging with
  line spacing, trimming) is rectangular: every row has the length of the first row,
  which is the width that \<open>getBitmapDimensions\<close> reports, and \<open>validateBitmap\<close>
  accepts it.
\<close>

theorem textToBitmap_rectangular:
  assumes "textToBitmap toUpperCase font input vertical = Inr b"
  shows "(\<forall>row \<in> set b. length row = fst (getBitmapDimensions b)) \<and> validateBitmap b"
  using textToBitmap_uniform [OF assms]
  by (simp add: uniformRows_dimensions uniformRows_validate)

theorem textToBitmap_rectangular_witness:
  "textToBitmap asciiToUpperCase sampleFont (Some [0x61, 0x42, 0x5C, 0x6E, 0x7A]) False
     = Inr [[True, True, False, True, False, False], [True, False, False, True, True, True],
          [False, False, False, False, False, False],
          [False, False, False, False, False, False], [True, False, False, False, False, False]]
   \<and> list_all (\<lambda>row. length row = 6)
         [[True, True, False, True, False, False], [True, False, False, True, True, True],
          [False, False, False, False, False, False],
          [False, False, False, False, False, False], [True, False, False, False, False, False]]"
proof -
  have e: "textToBitmap asciiToUpperCase sampleFont (Some [0x61, 0x42, 0x5C, 0x6E, 0x7A]) False
     = Inr [[True, True, False, True, False, False], [True, False, False, True, True, True],
          [False, False, False, False, False, False],
          [False, False, False, False, False, False], [True, False, False, False, False, False]]"
    by (simp add: eval_defs upt_rec)
  from textToBitmap_rectangular [OF e] e show ?thesis
    by (simp add: getBitmapDimensions_def list_all_iff)
qed

section \<open>The length cap\<close>

lemma length_codePoints: "length (codePoints s) \<le> length s"
  by (induction s rule: codePoints.induct) auto

lemma codePoints_bmp:
  "\<forall>c \<in> set s. \<not> isHighSurrogate c \<Longrightarrow> codePoints s = map (\<lambda>c. [c]) s"
  by (induction s rule: codePoints.induct) auto

lemma truncateText_code_units:
  "truncateText s = take 100 s
   \<and> length (truncateText s) \<le> 100
   \<and> length (codePoints (truncateText s)) \<le> 100
   \<and> ((\<forall>c \<in> set s. \<not> isHighSurrogate c) \<longrightarrow>
        codePoints (truncateText s) = take 100 (codePoints s))"
proof -
  have t: "truncateText s = take 100 s" by (simp add: truncateText_def slice_def MAX_TEXT_LENGTH_def)
  have "length (codePoints (take 100 s)) \<le> length (take 100 s)" by (rule length_codePoints)
  then have l: "length (codePoints (take 100 s)) \<le> 100" by simp
  have "codePoints (take 100 s) = take 100 (codePoints s)" if h: "\<forall>c \<in> set s. \<not> isHighSurrogate c"
  proof -
    from h have "\<forall>c \<in> set (take 100 s). \<not> isHighSurrogate c" by (auto dest: in_set_takeD)
    then show ?thesis using h by (simp add: codePoints_bmp take_map)
  qed
  with t l show ?thesis by simp
qed

lemma codePoints_replicate_pair:
  "isHighSurrogate h \<Longrightarrow> isLowSurrogate l \<Longrightarrow>
     codePoints (concat (replicate n [h, l])) = replicate n [h, l]"
  by (induction n) auto

lemma decodeSpec_plain: "\<forall>c \<in> set s. c \<noteq> backslash \<Longrightarrow> decodeSpec s = s"
  by (induction s rule: decodeSpec.induct) auto

lemma replaceCR_plain: "\<forall>c \<in> set s. c \<noteq> carriageReturn \<Longrightarrow> replaceCR s = s"
  unfolding replaceCR_def by (induction s) auto

lemma concat_replicate_snoc: "concat (replicate (Suc n) xs) = concat (replicate n xs) @ xs"
  by (induction n) auto

lemma replaceCRLF_plain: "\<forall>c \<in> set s. c \<noteq> carriageReturn \<Longrightarrow> replaceCRLF s = s"
  by (induction s rule: replaceCRLF.induct) auto

text \<open>
  C3 as stated fails: a text of 51 characters outside the Basic Multilingual Plane
  (102 code units) is accepted and has 51 display characters, fewer than 100, and the
  text handed to rasterisation keeps only 50 of them.
\<close>

theorem truncation_counterexample:
  "\<not> isl (textToBitmap asciiToUpperCase sampleFont (Some (concat (replicate 51 [0xD83D, 0xDE00]))) False)
   \<and> length (codePoints (sanitizeText (normalizeTextInput (concat (replicate 51 [0xD83D, 0xDE00])) False))) = 51
   \<and> codePoints (truncateText (sanitizeText (normalizeTextInput (concat (replicate 51 [0xD83D, 0xDE00])) False)))
      \<noteq> take 100 (codePoints (sanitizeText (normalizeTextInput (concat (replicate 51 [0xD83D, 0xDE00])) False)))"
proof -
  let ?s = "concat (replicate 51 [0xD83D, 0xDE00 :: jschar])"
  have n: "normalizeTextInput ?s False = ?s"
    by (simp add: normalizeTextInput_def decodeEscapes_decodeSpec decodeSpec_plain replaceCRLF_plain replaceCR_plain
        backslash_def carriageReturn_def)
  have "\<forall>c \<in> set ?s. \<not> isControl c" by (simp add: isControl_def)
  then have s: "sanitizeText ?s = ?s" unfolding sanitizeText_def by (simp only: filter_True)
  have c: "codePoints ?s = replicate 51 [0xD83D, 0xDE00]"
    by (rule codePoints_replicate_pair) (simp_all add: isHighSurrogate_def isLowSurrogate_def)
  have "?s = concat (replicate 50 [0xD83D, 0xDE00]) @ [0xD83D, 0xDE00]"
    using concat_replicate_snoc [of 50 "[0xD83D, 0xDE00 :: jschar]"] by simp
  then have "take 100 ?s = concat (replicate 50 [0xD83D, 0xDE00])" 
    by (simp add: length_concat sum_list_replicate)
  then have t: "codePoints (truncateText ?s) = replicate 50 [0xD83D, 0xDE00]"
    by (simp add: truncateText_def slice_def MAX_TEXT_LENGTH_def codePoints_replicate_pair isHighSurrogate_def isLowSurrogate_def)
  have "length (codePoints (truncateText ?s)) \<noteq> length (take 100 (codePoints ?s))"
    by (simp add: t c)
  then have d: "codePoints (truncateText ?s) \<noteq> take 100 (codePoints ?s)" by metis
  have "?s \<noteq> []" by simp
  then have "\<not> isl (textToBitmap asciiToUpperCase sampleFont (Some ?s) False)"
    by (simp add: textToBitmap_def n s Let_def)
  with d show ?thesis by (simp add: n s c)
qed

text \<open>
  C3, amended. For every input accepted by \<open>textToBitmap\<close>, the text handed to
  rasterisation is the first 100 UTF-16 code units of the sanitised text: it has at most
  100 code units, hence at most 100 characters, and when the sanitised text has no
  surrogate-pair character the first 100 characters are kept and the rest dropped.
\<close>

theorem textToBitmap_truncates_code_units:
  assumes "textToBitmap toUpperCase font (Some text) vertical = Inr b"
  shows "b = mergeLines (map (\<lambda>line. renderLineToBitmap toUpperCase line font)
                (splitLines (truncateText (sanitizeText (normalizeTextInput text vertical)))))
              (lineSpacing font)
   \<and> truncateText (sanitizeText (normalizeTextInput text vertical))
       = take 100 (sanitizeText (normalizeTextInput text vertical))
   \<and> length (truncateText (sanitizeText (normalizeTextInput text vertical))) \<le> 100
   \<and> length (codePoints (truncateText (sanitizeText (normalizeTextInput text vertical)))) \<le> 100
   \<and> ((\<forall>c \<in> set (sanitizeText (normalizeTextInput text vertical)). \<not> isHighSurrogate c) \<longrightarrow>
        codePoints (truncateText (sanitizeText (normalizeTextInput text vertical)))
          = take 100 (codePoints (sanitizeText (normalizeTextInput text vertical))))"
proof -
  from assms have "b = mergeLines (map (\<lambda>line. renderLineToBitmap toUpperCase line font)
                (splitLines (truncateText (sanitizeText (normalizeTextInput text vertical)))))
              (lineSpacing font)"
    by (auto simp: textToBitmap_def Let_def split: if_splits)
  then show ?thesis using truncateText_code_units [of "sanitizeText (normalizeTextInput text vertical)"]
    by blast
qed

theorem textToBitmap_truncates_code_units_witness:
  "textToBitmap asciiToUpperCase sampleFont (Some [0x61, 0x42]) False
     = Inr [[True, True, False, True, False, False], [True, False, False, True, True, True]]
   \<and> list_all (\<lambda>c. \<not> isHighSurrogate c) (sanitizeText (normalizeTextInput [0x61, 0x42] False))
   \<and> codePoints (truncateText (sanitizeText (normalizeTextInput [0x61, 0x42] False)))
       = take 100 (codePoints (sanitizeText (normalizeTextInput [0x61, 0x42] False)))
   \<and> truncateText (sanitizeText (normalizeTextInput [0x61, 0x42] False)) = [0x61, 0x42]"
proof -
  have e: "textToBitmap asciiToUpperCase sampleFont (Some [0x61, 0x42]) False
     = Inr [[True, True, False, True, False, False], [True, False, False, True, True, True]]"
    by (simp add: eval_defs upt_rec)
  have h: "\<forall>c \<in> set (sanitizeText (normalizeTextInput [0x61, 0x42] False)). \<not> isHighSurrogate c"
    by (simp add: eval_defs)
  have t: "take 100 (sanitizeText (normalizeTextInput [0x61, 0x42] False)) = [0x61, 0x42]"
    by (simp add: eval_defs)
  note th = textToBitmap_truncates_code_units [OF e]
  from th have a: "truncateText (sanitizeText (normalizeTextInput [0x61, 0x42] False))
       = take 100 (sanitizeText (normalizeTextInput [0x61, 0x42] False))" by blast
  from th h have b: "codePoints (truncateText (sanitizeText (normalizeTextInput [0x61, 0x42] False)))
       = take 100 (codePoints (sanitizeText (normalizeTextInput [0x61, 0x42] False)))" by blast
  from a t have c: "truncateText (sanitizeText (normalizeTextInput [0x61, 0x42] False)) = [0x61, 0x42]"
    by (rule trans)
  from h have "list_all (\<lambda>c. \<not> isHighSurrogate c) (sanitizeText (normalizeTextInput [0x61, 0x42] False))"
    by (simp only: list_all_iff)
  with e b c show ?thesis by blast
qed

section \<open>Vertical mode\<close>

lemma splitLines_nonempty: "splitLines s \<noteq> []"
  by (induction s) (auto split: list.splits)

lemma splitLines_append_newline:
  "splitLines (a @ newline # b) = splitLines a @ splitLines b"
  by (induction a) (auto simp: splitLines_nonempty split: list.splits)

lemma splitLines_no_newline: "newline \<notin> set l \<Longrightarrow> splitLines l = [l]"
  by (induction l) auto

lemma splitLines_pieces: "l \<in> set (splitLines s) \<Longrightarrow> newline \<notin> set l"
  by (induction s arbitrary: l) (auto split: if_splits list.splits)

lemma splitLines_joinWith:
  "ps \<noteq> [] \<Longrightarrow> \<forall>p \<in> set ps. newline \<notin> set p \<Longrightarrow> splitLines (joinWith [newline] ps) = ps"
  by (induction ps rule: induct_list012) (auto simp: splitLines_append_newline splitLines_no_newline)

lemma codePoints_chars: "p \<in> set (codePoints l) \<Longrightarrow> set p \<subseteq> set l"
  by (induction l arbitrary: p rule: codePoints.induct) (auto split: if_splits)

lemma codePoints_nonempty: "l \<noteq> [] \<Longrightarrow> codePoints l \<noteq> []"
  by (induction l rule: codePoints.induct) auto

lemma splitLines_verticalizeLine:
  assumes "newline \<notin> set line"
  shows "splitLines (verticalizeLine line) = explodeLine line"
proof (cases "line = []")
  case True
  then show ?thesis by (simp add: verticalizeLine_def explodeLine_def)
next
  case False
  have "\<forall>p \<in> set (codePoints line). newline \<notin> set p"
    using assms codePoints_chars by blast
  with False show ?thesis
    by (simp add: verticalizeLine_def explodeLine_def splitLines_joinWith codePoints_nonempty)
qed

lemma splitLines_joinWith2:
  "ls \<noteq> [] \<Longrightarrow> splitLines (joinWith [newline, newline] ls) = stackGroups (map splitLines ls)"
  by (induction ls rule: induct_list012) (auto simp: splitLines_append_newline)

lemma vertical_lines:
  "splitLines (normalizeTextInput text True)
     = stackGroups (map explodeLine (splitLines (normalizeTextInput text False)))"
proof -
  let ?ls = "splitLines (normalizeTextInput text False)"
  have "map (\<lambda>l. splitLines (verticalizeLine l)) ?ls = map explodeLine ?ls"
    by (rule map_cong [OF refl]) (simp add: splitLines_verticalizeLine splitLines_pieces)
  then have m: "map splitLines (map verticalizeLine ?ls) = map explodeLine ?ls"
    by (simp add: comp_def)
  have j: "splitLines (joinWith [newline, newline] (map verticalizeLine ?ls))
      = stackGroups (map splitLines (map verticalizeLine ?ls))"
    by (rule splitLines_joinWith2) (simp add: splitLines_nonempty)
  have "splitLines (joinWith [newline, newline] (map verticalizeLine ?ls))
      = stackGroups (map explodeLine ?ls)" by (simp only: j m)
  then show ?thesis
    by (simp add: normalizeTextInput_def Let_def)
qed

lemma vertical_AB:
  "normalizeTextInput [0x41, 0x42] True = [0x41, 0x0A, 0x42]"
  "normalizeTextInput [0x41, 0x0A, 0x42] False = [0x41, 0x0A, 0x42]"
  by (simp_all add: eval_defs)

text \<open>
  C8. With vertical mode on, \<open>AB\<close> gives the bitmap that \<open>A\<close>, line break, \<open>B\<close>
  gives with vertical mode off, for every font; in general the lines rasterised in
  vertical mode are the characters of each input line, one per line, the groups of
  consecutive input lines separated by one blank line.
\<close>

theorem vertical_stacking:
  "textToBitmap toUpperCase font (Some [0x41, 0x42]) True
     = textToBitmap toUpperCase font (Some [0x41, 0x0A, 0x42]) False
   \<and> splitLines (normalizeTextInput text True)
     = stackGroups (map explodeLine (splitLines (normalizeTextInput text False)))"
  by (simp add: vertical_lines) (simp add: textToBitmap_def vertical_AB)

theorem vertical_stacking_witness:
  "textToBitmap asciiToUpperCase sampleFont (Some [0x41, 0x42]) True
     = Inr [[True, True, False], [True, False, False], [False, False, False],
            [True, False, False], [True, True, True]]
   \<and> splitLines (normalizeTextInput [0x41, 0x42, 0x0A, 0x0A, 0x43] True)
       = [[0x41], [0x42], [], [], [], [0x43]]"
proof -
  have e: "textToBitmap asciiToUpperCase sampleFont (Some [0x41, 0x0A, 0x42]) False
     = Inr [[True, True, False], [True, False, False], [False, False, False],
            [True, False, False], [True, True, True]]"
    by (simp add: eval_defs upt_rec)
  have s: "stackGroups (map explodeLine (splitLines (normalizeTextInput [0x41, 0x42, 0x0A, 0x0A, 0x43] False)))
       = [[0x41], [0x42], [], [], [], [0x43]]"
    by (simp add: eval_defs explodeLine_def)
  from vertical_stacking [of asciiToUpperCase sampleFont "[0x41, 0x42, 0x0A, 0x0A, 0x43]"] e s
  show ?thesis by simp
qed

section \<open>Failure on empty input\<close>

text \<open>
  The sanitised text is empty exactly when every character of the normalised text is a
  control character. Line-break normalisation keeps a carriage return as a line feed,
  and vertical stacking puts a line feed between two characters of a line and two
  between lines, so in vertical mode only a single character can be sanitised away.
\<close>

lemma sanitizeText_empty: "sanitizeText s = [] \<longleftrightarrow> list_all isControl s"
  by (simp add: sanitizeText_def filter_empty_conv list_all_iff)

lemma isControl_newline: "\<not> isControl newline"
  by (simp add: isControl_def newline_def)

lemma surrogate_not_control: "isHighSurrogate c \<Longrightarrow> \<not> isControl c"
  by (auto simp: isHighSurrogate_def isControl_def word_le_nat_alt)

lemma replaceCR_control: "list_all isControl (replaceCR s) \<longleftrightarrow> list_all strippedControl s"
  by (induction s) (auto simp: replaceCR_def strippedControl_def isControl_newline)

lemma replaceCRLF_stripped:
  "list_all strippedControl (replaceCRLF s) \<longleftrightarrow> list_all strippedControl s"
  by (induction s rule: replaceCRLF.induct) (auto simp: strippedControl_def isControl_newline)

lemma replaceCRLF_nonempty: "s \<noteq> [] \<Longrightarrow> replaceCRLF s \<noteq> []"
  by (cases s rule: replaceCRLF.cases) auto

lemma decodeSpec_nonempty: "t \<noteq> [] \<Longrightarrow> decodeSpec t \<noteq> []"
  by (cases t rule: decodeSpec.cases) auto

lemma joinWith_sep: "2 \<le> length ps \<Longrightarrow> set sep \<subseteq> set (joinWith sep ps)"
proof (cases ps)
  case (Cons p qs)
  assume "2 \<le> length ps"
  with Cons show ?thesis by (cases qs) auto
qed simp

lemma splitLines_newline: "newline \<in> set s \<Longrightarrow> 2 \<le> length (splitLines s)"
proof (induction s)
  case Nil
  then show ?case by simp
next
  case (Cons c cs)
  have "1 \<le> length (splitLines cs)" using splitLines_nonempty [of cs] by (cases "splitLines cs") simp_all
  with Cons show ?case by (auto split: list.splits)
qed

lemma codePoints_single:
  "codePoints s = [p] \<Longrightarrow>
     p = s \<and> ((\<exists>c. s = [c]) \<or> (\<exists>c d. s = [c, d] \<and> isHighSurrogate c \<and> isLowSurrogate d))"
proof (cases s rule: codePoints.cases)
  case (3 c d cs)
  assume a: "codePoints s = [p]"
  show ?thesis
  proof (cases "isHighSurrogate c \<and> isLowSurrogate d")
    case True
    with a 3 have "codePoints cs = []" "p = [c, d]" by simp_all
    with codePoints_nonempty [of cs] have "cs = []" by auto
    with 3 True \<open>p = [c, d]\<close> show ?thesis by simp
  next
    case False
    with a 3 have "codePoints (d # cs) = []" by auto
    with codePoints_nonempty [of "d # cs"] show ?thesis by simp
  qed
qed auto

lemma vertical_control:
  assumes "N \<noteq> []"
  shows "list_all isControl (joinWith [newline, newline] (map verticalizeLine (splitLines N)))
           \<longleftrightarrow> (\<exists>c. N = [c] \<and> isControl c)"
proof
  let ?V = "joinWith [newline, newline] (map verticalizeLine (splitLines N))"
  assume a: "list_all isControl ?V"
  then have nl: "newline \<notin> set ?V" using isControl_newline by (auto simp: list_all_iff)
  have "\<not> 2 \<le> length (map verticalizeLine (splitLines N))"
    using joinWith_sep [of "map verticalizeLine (splitLines N)" "[newline, newline]"] nl by auto
  then have one: "\<not> 2 \<le> length (splitLines N)" by simp
  with splitLines_newline [of N] have nn: "newline \<notin> set N" by auto
  then have V: "?V = joinWith [newline] (codePoints N)"
    using assms by (simp add: splitLines_no_newline verticalizeLine_def)
  have "\<not> 2 \<le> length (codePoints N)"
    using joinWith_sep [of "codePoints N" "[newline]"] nl V by auto
  with codePoints_nonempty [OF assms] have "length (codePoints N) = Suc 0"
    by (cases "codePoints N") (auto simp: Suc_le_eq)
  then obtain p where p: "codePoints N = [p]" by (auto simp: length_Suc_conv)
  from codePoints_single [OF p] have pN: "p = N"
    and shape: "(\<exists>c. N = [c]) \<or> (\<exists>c d. N = [c, d] \<and> isHighSurrogate c \<and> isLowSurrogate d)"
    by simp_all
  from V p pN have "?V = N" by simp
  with a have ctl: "list_all isControl N" by simp
  from shape show "\<exists>c. N = [c] \<and> isControl c"
  proof
    assume "\<exists>c. N = [c]"
    with ctl show ?thesis by auto
  next
    assume "\<exists>c d. N = [c, d] \<and> isHighSurrogate c \<and> isLowSurrogate d"
    with ctl surrogate_not_control show ?thesis by auto
  qed
next
  assume "\<exists>c. N = [c] \<and> isControl c"
  then obtain c where c: "N = [c]" "isControl c" by auto
  then have "c \<noteq> newline" using isControl_newline by auto
  with c show "list_all isControl (joinWith [newline, newline] (map verticalizeLine (splitLines N)))"
    by (simp add: verticalizeLine_def)
qed

lemma normalized_single:
  "(\<exists>c. replaceCR (replaceCRLF d) = [c] \<and> isControl c) \<longleftrightarrow> (\<exists>c. d = [c] \<and> strippedControl c)"
proof (cases d rule: replaceCRLF.cases)
  case 1
  then show ?thesis by (simp add: replaceCR_def)
next
  case (2 c)
  then show ?thesis by (auto simp: replaceCR_def strippedControl_def isControl_newline)
next
  case (3 c e cs)
  have "replaceCRLF (e # cs) \<noteq> []" by (rule replaceCRLF_nonempty) simp
  with 3 show ?thesis by (auto simp: replaceCR_def isControl_newline)
qed

lemma normalize_sanitize_empty:
  assumes "t \<noteq> []"
  shows "sanitizeText (normalizeTextInput t vertical) = [] \<longleftrightarrow>
     (if vertical then (\<exists>c. decodeEscapes t = [c] \<and> strippedControl c)
      else list_all strippedControl (decodeEscapes t))"
proof -
  have d: "decodeEscapes t \<noteq> []" using assms by (simp add: decodeEscapes_decodeSpec decodeSpec_nonempty)
  then have N: "replaceCR (replaceCRLF (decodeEscapes t)) \<noteq> []"
    by (simp add: replaceCR_def replaceCRLF_nonempty)
  show ?thesis
  proof (cases vertical)
    case True
    then show ?thesis
      by (simp add: normalizeTextInput_def sanitizeText_empty vertical_control [OF N] normalized_single)
  next
    case False
    then show ?thesis
      by (simp add: normalizeTextInput_def sanitizeText_empty replaceCR_control replaceCRLF_stripped)
  qed
qed

lemma stripped_sanitize:
  "(if vertical then (\<exists>c. d = [c] \<and> strippedControl c) else list_all strippedControl d)
     \<Longrightarrow> sanitizeText d = []"
  by (auto simp: sanitizeText_empty strippedControl_def list_all_iff split: if_splits)

text \<open>
  C9, counterexample. A text of two tabs is empty after escape decoding and removal of
  the control characters, yet in vertical mode \<open>textToBitmap\<close> does not fail: stacking
  puts a line break between the two tabs before sanitisation, the sanitised text is
  that line break, and the result is the empty bitmap \<open>[[]]\<close>.
\<close>

theorem sanitized_empty_counterexample:
  "sanitizeText (decodeEscapes [0x09, 0x09]) = []
   \<and> textToBitmap asciiToUpperCase sampleFont (Some [0x09, 0x09]) True = Inr [[]]"
  by code_simp

text \<open>
  C9, amended. \<open>textToBitmap\<close> (the font being resolved) fails exactly when the text is
  missing or empty, or, without vertical mode, every character of the escape-decoded
  text is a control character other than the line feed and the carriage return, or,
  with vertical mode, the escape-decoded text is one such character. It returns a
  bitmap exactly when it does not fail, a failure being an error value that carries no
  bitmap; the failure is the one for a missing text exactly when the text is missing
  or empty. Hence it fails only if the text is missing, empty, or empty after escape
  decoding and removal of the control characters, and it returns a bitmap whenever
  that text is non-empty.
\<close>

theorem textToBitmap_fails_iff:
  "((\<exists>e. textToBitmap toUpperCase font input vertical = Inl e) \<longleftrightarrow>
      (case input of None \<Rightarrow> True
       | Some text \<Rightarrow> text = []
           \<or> (if vertical then (\<exists>c. decodeEscapes text = [c] \<and> strippedControl c)
               else list_all strippedControl (decodeEscapes text))))
   \<and> ((\<exists>b. textToBitmap toUpperCase font input vertical = Inr b) \<longleftrightarrow>
        \<not> (\<exists>e. textToBitmap toUpperCase font input vertical = Inl e))
   \<and> (textToBitmap toUpperCase font input vertical = Inl TextRequired \<longleftrightarrow>
        input = None \<or> input = Some [])
   \<and> ((\<exists>e. textToBitmap toUpperCase font input vertical = Inl e) \<longrightarrow>
        (case input of None \<Rightarrow> True | Some text \<Rightarrow> sanitizeText (decodeEscapes text) = []))"
proof -
  have f: "(\<exists>e. textToBitmap toUpperCase font input vertical = Inl e) \<longleftrightarrow>
      (case input of None \<Rightarrow> True
       | Some text \<Rightarrow> text = []
           \<or> (if vertical then (\<exists>c. decodeEscapes text = [c] \<and> strippedControl c)
               else list_all strippedControl (decodeEscapes text)))"
  proof (cases input)
    case None
    then show ?thesis by (simp add: textToBitmap_def)
  next
    case (Some t)
    show ?thesis
    proof (cases "t = []")
      case True
      with Some show ?thesis by (simp add: textToBitmap_def)
    next
      case False
      from normalize_sanitize_empty [OF False, of vertical] Some False show ?thesis
        by (simp add: textToBitmap_def Let_def)
    qed
  qed
  have b: "(\<exists>b. textToBitmap toUpperCase font input vertical = Inr b) \<longleftrightarrow>
        \<not> (\<exists>e. textToBitmap toUpperCase font input vertical = Inl e)"
    by (cases "textToBitmap toUpperCase font input vertical") simp_all
  have r: "textToBitmap toUpperCase font input vertical = Inl TextRequired \<longleftrightarrow>
        input = None \<or> input = Some []"
    by (auto simp: textToBitmap_def Let_def split: option.splits)
  have s: "(\<exists>e. textToBitmap toUpperCase font input vertical = Inl e) \<longrightarrow>
        (case input of None \<Rightarrow> True | Some text \<Rightarrow> sanitizeText (decodeEscapes text) = [])"
  proof (cases input)
    case None
    then show ?thesis by simp
  next
    case (Some t)
    show ?thesis
    proof (cases "t = []")
      case True
      with Some show ?thesis by (simp add: decodeEscapes_decodeSpec sanitizeText_def)
    next
      case False
      with f Some stripped_sanitize [of vertical "decodeEscapes t"] show ?thesis by auto
    qed
  qed
  from f b r s show ?thesis by blast
qed

theorem textToBitmap_fails_iff_witness:
  "(\<exists>e. textToBitmap asciiToUpperCase sampleFont (Some [0x09, 0x0B]) False = Inl e)
   \<and> sanitizeText (decodeEscapes [0x09, 0x0B]) = []
   \<and> (\<exists>e. textToBitmap asciiToUpperCase sampleFont (Some [0x09]) True = Inl e)
   \<and> (\<exists>b. textToBitmap asciiToUpperCase sampleFont (Some [0x0D]) False = Inr b)
   \<and> (\<exists>b. textToBitmap asciiToUpperCase sampleFont (Some [0x09, 0x41]) True = Inr b)
   \<and> textToBitmap asciiToUpperCase sampleFont None False = Inl TextRequired"
proof -
  have d: "decodeEscapes [0x09, 0x0B] = [0x09, 0x0B]" "decodeEscapes [0x09] = [0x09]"
    "decodeEscapes [0x0D] = [0x0D]" "decodeEscapes [0x09, 0x41] = [0x09, 0x41]"
    by (simp_all add: decodeEscapes_decodeSpec backslash_def)
  have c: "strippedControl 0x09" "strippedControl 0x0B" "\<not> strippedControl 0x0D"
    by (simp_all add: strippedControl_def isControl_def carriageReturn_def)
  from textToBitmap_fails_iff [of asciiToUpperCase sampleFont "Some [0x09, 0x0B]" False]
    textToBitmap_fails_iff [of asciiToUpperCase sampleFont "Some [0x09]" True]
    textToBitmap_fails_iff [of asciiToUpperCase sampleFont "Some [0x0D]" False]
    textToBitmap_fails_iff [of asciiToUpperCase sampleFont "Some [0x09, 0x41]" True]
    textToBitmap_fails_iff [of asciiToUpperCase sampleFont None False]
  show ?thesis by (simp add: d c)
qed

section \<open>Rounding to a double\<close>

lemma roundHalfEven_of_int [simp]: "roundHalfEven (of_int n) = n"
  by (simp add: roundHalfEven_def)

lemma roundHalfEven_bounds: "\<lfloor>x\<rfloor> \<le> roundHalfEven x \<and> roundHalfEven x \<le> \<lfloor>x\<rfloor> + 1"
  by (simp add: roundHalfEven_def Let_def)

lemma roundHalfEven_mono: "x \<le> y \<Longrightarrow> roundHalfEven x \<le> roundHalfEven y"
proof -
  assume xy: "x \<le> y"
  then have fl: "\<lfloor>x\<rfloor> \<le> \<lfloor>y\<rfloor>" by (rule floor_mono)
  show ?thesis
  proof (cases "\<lfloor>x\<rfloor> = \<lfloor>y\<rfloor>")
    case True
    with xy show ?thesis by (auto simp: roundHalfEven_def Let_def)
  next
    case False
    with fl have "\<lfloor>x\<rfloor> + 1 \<le> \<lfloor>y\<rfloor>" by simp
    with roundHalfEven_bounds [of x] roundHalfEven_bounds [of y] show ?thesis by linarith
  qed
qed

lemma ilog2_bounds:
  assumes "0 < x"
  shows "2 powi (ilog2 x) \<le> x \<and> x < 2 powi (ilog2 x + 1)"
proof -
  obtain n d where q: "quotient_of x = (n, d)" by (cases "quotient_of x")
  then have d: "0 < d" by (rule quotient_of_denom_pos)
  from q have x: "x = of_int n / of_int d" by (rule quotient_of_div)
  with assms d have n: "0 < n" by (simp add: zero_less_divide_iff)
  from bitlen_bounds [OF n] have n1: "(2::rat) ^ nat (bitlen n - 1) \<le> of_int n" and n2: "of_int n < (2::rat) ^ nat (bitlen n)"
    by (metis of_int_le_iff of_int_numeral of_int_power, metis of_int_less_iff of_int_numeral of_int_power)
  from bitlen_bounds [OF d] have d1: "(2::rat) ^ nat (bitlen d - 1) \<le> of_int d" and d2: "of_int d < (2::rat) ^ nat (bitlen d)"
    by (metis of_int_le_iff of_int_numeral of_int_power, metis of_int_less_iff of_int_numeral of_int_power)
  have bn: "1 \<le> bitlen n" using n by (simp add: bitlen_alt_def)
  have bd: "1 \<le> bitlen d" using d by (simp add: bitlen_alt_def)
  have pn1: "(2::rat) powi (bitlen n - 1) \<le> of_int n" using n1 bn by (simp add: power_int_def)
  have pn2: "of_int n < (2::rat) powi (bitlen n)" using n2 bn by (simp add: power_int_def)
  have pd1: "(2::rat) powi (bitlen d - 1) \<le> of_int d" using d1 bd by (simp add: power_int_def)
  have pd2: "of_int d < (2::rat) powi (bitlen d)" using d2 bd by (simp add: power_int_def)
  let ?k = "bitlen n - bitlen d"
  have dpos: "(0::rat) < of_int d" using d by simp
  have up: "x < (2::rat) powi (?k + 1)"
  proof -
    have "x * of_int d = of_int n" using x dpos by simp
    also have "\<dots> < (2::rat) powi (bitlen n)" by (rule pn2)
    also have "\<dots> = 2 powi (?k + 1) * 2 powi (bitlen d - 1)"
      by (simp add: power_int_add [symmetric])
    also have "\<dots> \<le> 2 powi (?k + 1) * of_int d"
      using pd1 by (intro mult_left_mono) simp_all
    finally show ?thesis using dpos by simp
  qed
  have lo: "(2::rat) powi (?k - 1) \<le> x"
  proof -
    have "(2::rat) powi (?k - 1) * of_int d \<le> 2 powi (?k - 1) * 2 powi (bitlen d)"
      using pd2 by (intro mult_left_mono) simp_all
    also have "\<dots> = 2 powi (bitlen n - 1)" by (simp add: power_int_add [symmetric])
    also have "\<dots> \<le> of_int n" by (rule pn1)
    also have "\<dots> = x * of_int d" using x dpos by simp
    finally show ?thesis using dpos by simp
  qed
  show ?thesis using up lo by (auto simp: ilog2_def q Let_def)
qed

lemma two_powi_less_imp: "(2::rat) powi a < 2 powi b \<Longrightarrow> a < b"
proof (rule ccontr)
  assume l: "(2::rat) powi a < 2 powi b" and "\<not> a < b"
  then have "b \<le> a" by simp
  then have "(2::rat) powi b \<le> 2 powi a" by (intro power_int_increasing) simp_all
  with l show False by simp
qed

lemma two_powi_le_imp: "(2::rat) powi a \<le> 2 powi b \<Longrightarrow> a \<le> b"
proof (rule ccontr)
  assume l: "(2::rat) powi a \<le> 2 powi b" and "\<not> a \<le> b"
  then have "b < a" by simp
  then have "(2::rat) powi b < 2 powi a" by (intro power_int_strict_increasing) simp_all
  with l show False by simp
qed

lemma two_powi_add: "(2::rat) powi a * 2 powi b = 2 powi (a + b)"
  by (simp add: power_int_add)

lemma ilog2_unique:
  assumes "0 < x" "2 powi e \<le> x" "x < 2 powi (e + 1)"
  shows "ilog2 x = e"
proof -
  from ilog2_bounds [OF assms(1)] have b: "2 powi (ilog2 x) \<le> x" "x < 2 powi (ilog2 x + 1)" by simp_all
  from assms(2) b(2) have "(2::rat) powi e < 2 powi (ilog2 x + 1)" by (rule le_less_trans)
  then have 1: "e < ilog2 x + 1" by (rule two_powi_less_imp)
  from b(1) assms(3) have "(2::rat) powi (ilog2 x) < 2 powi (e + 1)" by (rule le_less_trans)
  then have 2: "ilog2 x < e + 1" by (rule two_powi_less_imp)
  from 1 2 show ?thesis by simp
qed

lemma ilog2_mono: "0 < x \<Longrightarrow> x \<le> y \<Longrightarrow> ilog2 x \<le> ilog2 y"
proof -
  assume x: "0 < x" and xy: "x \<le> y"
  then have y: "0 < y" by simp
  from ilog2_bounds [OF x] ilog2_bounds [OF y] xy
  have "(2::rat) powi (ilog2 x) < 2 powi (ilog2 y + 1)" by linarith
  then have "ilog2 x < ilog2 y + 1" by (rule two_powi_less_imp)
  then show ?thesis by simp
qed

lemma ulpOf_pos: "0 < ulpOf x"
  by (simp add: ulpOf_def)

lemma ulpOf_52: "2 powi 52 * ulpOf x = 2 powi (ilog2 x)"
proof -
  have "52 + (ilog2 x - 52) = ilog2 x" by simp
  then show ?thesis by (simp only: ulpOf_def two_powi_add)
qed

lemma ulpOf_53: "2 powi 53 * ulpOf x = 2 powi (ilog2 x + 1)"
proof -
  have "53 + (ilog2 x - 52) = ilog2 x + 1" by simp
  then show ?thesis by (simp only: ulpOf_def two_powi_add)
qed

lemma significand_bounds:
  assumes "0 < x"
  shows "2 powi 52 \<le> x / ulpOf x \<and> x / ulpOf x < 2 powi 53"
proof -
  from ilog2_bounds [OF assms] have "2 powi 52 * ulpOf x \<le> x" "x < 2 powi 53 * ulpOf x"
    by (simp_all only: ulpOf_52 ulpOf_53)
  then show ?thesis using ulpOf_pos [of x] by (simp only: pos_le_divide_eq pos_divide_less_eq)
qed

lemma roundToDouble_pos:
  "0 < x \<Longrightarrow> roundToDouble x = of_int (roundHalfEven (x / ulpOf x)) * ulpOf x"
  by (simp add: roundToDouble_def)

lemma roundToDouble_binade:
  assumes "0 < x"
  shows "2 powi (ilog2 x) \<le> roundToDouble x \<and> roundToDouble x \<le> 2 powi (ilog2 x + 1)"
proof -
  let ?m = "roundHalfEven (x / ulpOf x)"
  define lo :: int where "lo = 2 ^ 52"
  define hi :: int where "hi = 2 ^ 53"
  have lo: "(of_int lo :: rat) = 2 powi 52" by (simp add: lo_def)
  have hi: "(of_int hi :: rat) = 2 powi 53" by (simp add: hi_def)
  from significand_bounds [OF assms]
  have "2 powi 52 \<le> x / ulpOf x" "x / ulpOf x \<le> 2 powi 53" by (blast, force)
  then have s: "of_int lo \<le> x / ulpOf x" "x / ulpOf x \<le> of_int hi"
    by (simp_all only: lo hi)
  from roundHalfEven_mono [OF s(1)] have m1: "lo \<le> ?m" by (simp only: roundHalfEven_of_int)
  from roundHalfEven_mono [OF s(2)] have m2: "?m \<le> hi" by (simp only: roundHalfEven_of_int)
  from m1 have "(of_int lo :: rat) \<le> of_int ?m" by (simp only: of_int_le_iff)
  then have "of_int lo * ulpOf x \<le> of_int ?m * ulpOf x"
    using ulpOf_pos [of x] by (intro mult_right_mono) simp_all
  then have a: "2 powi (ilog2 x) \<le> of_int ?m * ulpOf x" by (simp only: lo ulpOf_52)
  from m2 have "(of_int ?m :: rat) \<le> of_int hi" by (simp only: of_int_le_iff)
  then have "of_int ?m * ulpOf x \<le> of_int hi * ulpOf x"
    using ulpOf_pos [of x] by (intro mult_right_mono) simp_all
  then have b: "of_int ?m * ulpOf x \<le> 2 powi (ilog2 x + 1)" by (simp only: hi ulpOf_53)
  from a b show ?thesis by (simp only: roundToDouble_pos [OF assms])
qed

lemma roundToDouble_nonneg: "0 \<le> x \<Longrightarrow> 0 \<le> roundToDouble x"
proof (cases "x = 0")
  case True
  then show ?thesis by (simp add: roundToDouble_def)
next
  case False
  assume "0 \<le> x"
  with False have x: "0 < x" by simp
  have "(0::rat) \<le> 2 powi (ilog2 x)" by simp
  with roundToDouble_binade [OF x] show ?thesis by linarith
qed

lemma roundToDouble_mono:
  assumes "0 \<le> x" "x \<le> y"
  shows "roundToDouble x \<le> roundToDouble y"
proof (cases "x = 0")
  case True
  from assms have "0 \<le> y" by simp
  from roundToDouble_nonneg [OF this] True show ?thesis by (simp add: roundToDouble_def)
next
  case False
  with assms have x: "0 < x" and y: "0 < y" by simp_all
  from ilog2_mono [OF x assms(2)] have le: "ilog2 x \<le> ilog2 y" .
  show ?thesis
  proof (cases "ilog2 x = ilog2 y")
    case True
    then have u: "ulpOf x = ulpOf y" by (simp add: ulpOf_def)
    have "x / ulpOf y \<le> y / ulpOf y" using assms(2) ulpOf_pos [of y] by (simp add: divide_right_mono)
    from roundHalfEven_mono [OF this]
    have "(of_int (roundHalfEven (x / ulpOf y)) :: rat) \<le> of_int (roundHalfEven (y / ulpOf y))"
      by (simp only: of_int_le_iff)
    then have "of_int (roundHalfEven (x / ulpOf y)) * ulpOf y \<le> of_int (roundHalfEven (y / ulpOf y)) * ulpOf y"
      using ulpOf_pos [of y] by (intro mult_right_mono) simp_all
    then show ?thesis by (simp only: roundToDouble_pos [OF x] roundToDouble_pos [OF y] u)
  next
    case False
    with le have "ilog2 x + 1 \<le> ilog2 y" by simp
    then have "(2::rat) powi (ilog2 x + 1) \<le> 2 powi (ilog2 y)" by (intro power_int_increasing) simp_all
    with roundToDouble_binade [OF x] roundToDouble_binade [OF y] show ?thesis by linarith
  qed
qed

lemma roundToDouble_exact:
  assumes "0 \<le> m" "m < 2 ^ 53"
  shows "roundToDouble (of_int m * 2 powi k) = of_int m * 2 powi k"
proof (cases "m = 0")
  case True
  then show ?thesis by (simp add: roundToDouble_def)
next
  case False
  with assms have m: "0 < m" by simp
  define x :: rat where "x = of_int m * 2 powi k"
  have x: "0 < x" using m by (simp add: x_def)
  define hi :: int where "hi = 2 ^ 53"
  have hi: "(of_int hi :: rat) = 2 powi 53" by (simp add: hi_def)
  have "(of_int m :: rat) < of_int hi" using assms(2) by (simp only: of_int_less_iff hi_def)
  then have "of_int m * (2::rat) powi k < of_int hi * 2 powi k"
    by (rule mult_strict_right_mono) simp
  then have "x < 2 powi 53 * 2 powi k" by (simp only: x_def hi)
  then have "x < 2 powi (53 + k)" by (simp only: two_powi_add)
  with ilog2_bounds [OF x] have "(2::rat) powi (ilog2 x) < 2 powi (53 + k)" by linarith
  then have "ilog2 x < 53 + k" by (rule two_powi_less_imp)
  then have "0 \<le> k - (ilog2 x - 52)" by simp
  then obtain j :: nat where j: "k - (ilog2 x - 52) = int j" by (rule nonneg_int_cases)
  then have k: "k = int j + (ilog2 x - 52)" by simp
  have p: "(2::rat) powi k = 2 powi (int j) * ulpOf x"
    by (subst k) (simp only: two_powi_add ulpOf_def)
  have un: "ulpOf x \<noteq> 0" using ulpOf_pos [of x] by simp
  from p have "of_int m * (2::rat) powi k = of_int m * (2 powi (int j) * ulpOf x)"
    by (rule arg_cong)
  then have xe: "x = of_int m * (2 powi (int j) * ulpOf x)" by (simp only: x_def [symmetric])
  then have "x / ulpOf x = (of_int m * 2 powi (int j)) * ulpOf x / ulpOf x"
    by (simp only: mult.assoc [symmetric])
  also have "\<dots> = of_int m * 2 powi (int j)" using un by (rule nonzero_mult_div_cancel_right)
  also have "\<dots> = of_int (m * 2 ^ j)" by simp
  finally have "roundHalfEven (x / ulpOf x) = m * 2 ^ j" by (simp only: roundHalfEven_of_int)
  then have "roundToDouble x = of_int (m * 2 ^ j) * ulpOf x"
    by (simp only: roundToDouble_pos [OF x])
  also have "of_int (m * 2 ^ j) = of_int m * (2::rat) powi (int j)" by simp
  finally have "roundToDouble x = of_int m * (2 powi (int j) * ulpOf x)" by (simp only: mult.assoc)
  with xe have "roundToDouble x = x" by simp
  then show ?thesis by (simp only: x_def)
qed

lemma roundToDouble_of_int: "0 \<le> m \<Longrightarrow> m < 2 ^ 53 \<Longrightarrow> roundToDouble (of_int m) = of_int m"
  using roundToDouble_exact [of m 0] by simp

lemma roundToDouble_two_powi: "roundToDouble (2 powi k) = 2 powi k"
  using roundToDouble_exact [of 1 k] by simp

lemma roundToDouble_big:
  assumes "2 powi 53 \<le> x"
  shows "\<exists>j. roundToDouble x = 2 * of_int j"
proof -
  have "(0::rat) < 2 powi 53" by simp
  with assms have x: "0 < x" by linarith
  from ilog2_bounds [OF x] assms have "(2::rat) powi 53 < 2 powi (ilog2 x + 1)" by linarith
  then have "53 < ilog2 x + 1" by (rule two_powi_less_imp)
  then have "0 \<le> ilog2 x - 53" by simp
  then obtain j :: nat where j: "ilog2 x - 53 = int j" by (rule nonneg_int_cases)
  then have "ilog2 x - 52 = 1 + int j" by simp
  then have "ulpOf x = 2 powi 1 * 2 powi (int j)" by (simp only: ulpOf_def two_powi_add)
  then have u: "ulpOf x = 2 * of_int (2 ^ j)" by simp
  define r where "r = roundHalfEven (x / ulpOf x)"
  have "roundToDouble x = of_int r * ulpOf x" by (simp only: roundToDouble_pos [OF x] r_def)
  also have "\<dots> = of_int r * (2 * of_int (2 ^ j))" by (simp only: u)
  also have "\<dots> = 2 * of_int (r * 2 ^ j)" by simp
  finally show ?thesis ..
qed

lemma roundToDouble_big_ge:
  assumes "2 powi 53 \<le> x"
  shows "2 powi 53 \<le> roundToDouble x"
proof -
  have "roundToDouble (2 powi 53) \<le> roundToDouble x"
    using assms by (intro roundToDouble_mono) simp_all
  then show ?thesis by (simp only: roundToDouble_two_powi)
qed

text \<open>The relative error of one rounding is at most \<open>2 powi (- 53)\<close>.\<close>

lemma roundHalfEven_err: "\<bar>of_int (roundHalfEven x) - x\<bar> \<le> 1 / 2"
  unfolding roundHalfEven_def Let_def
  by (auto simp: abs_if split: if_splits) linarith+

lemma roundToDouble_err:
  assumes "0 < x"
  shows "\<bar>roundToDouble x - x\<bar> \<le> x * 2 powi (- 53)"
proof -
  let ?u = "ulpOf x"
  have u: "0 < ?u" by (rule ulpOf_pos)
  have "roundToDouble x - x = (of_int (roundHalfEven (x / ?u)) - x / ?u) * ?u"
    using u by (simp add: roundToDouble_pos [OF assms] algebra_simps)
  then have "\<bar>roundToDouble x - x\<bar> = \<bar>of_int (roundHalfEven (x / ?u)) - x / ?u\<bar> * ?u"
    using u by (simp add: abs_mult)
  also have "\<dots> \<le> (1 / 2) * ?u"
    using roundHalfEven_err [of "x / ?u"] u by (intro mult_right_mono) simp_all
  also have "\<dots> = 2 powi (ilog2 x) * 2 powi (- 53)"
    unfolding ulpOf_def by (simp add: two_powi_add power_int_diff power_int_minus field_simps)
  also have "\<dots> \<le> x * 2 powi (- 53)"
    using ilog2_bounds [OF assms] by (intro mult_right_mono) simp_all
  finally show ?thesis .
qed

section \<open>The congruential step\<close>

lemma mod_dvd_succ: "(x::nat) mod 2147483648 = 2147483647 \<Longrightarrow> 2147483648 dvd (x + 1)"
proof -
  assume h: "x mod 2147483648 = 2147483647"
  have "x = 2147483648 * (x div 2147483648) + x mod 2147483648" by simp
  with h have "x + 1 = 2147483648 * (x div 2147483648 + 1)" by simp
  then show ?thesis by (metis dvd_triv_left)
qed

lemma lcg_never_all_ones:
  assumes "(s::nat) * 1103515245 + 12345 < 9007199254740992"
  shows "(s * 1103515245 + 12345) mod 2147483648 \<noteq> 2147483647"
proof
  assume "(s * 1103515245 + 12345) mod 2147483648 = 2147483647"
  then have "2147483648 dvd (s * 1103515245 + 12345 + 1)" by (rule mod_dvd_succ)
  then have dv: "2147483648 dvd 1857678181 * (s * 1103515245 + 12345 + 1)" by (rule dvd_mult)
  have eq: "1857678181 * (s * 1103515245 + 12345 + 1)
      = (s + 1916945634) + 2147483648 * (s * 954594553 + 10679)"
    by (simp add: algebra_simps)
  from dv have "2147483648 dvd (s + 1916945634) + 2147483648 * (s * 954594553 + 10679)"
    by (simp only: eq)
  moreover have "(2147483648::nat) dvd 2147483648 * (s * 954594553 + 10679)" by (rule dvd_triv_left)
  ultimately have d: "2147483648 dvd (s + 1916945634)"
    by (simp only: dvd_add_left_iff)
  from assms have "s < 8162279" by simp
  then have "s + 1916945634 < 2147483648" "0 < s + 1916945634" by simp_all
  with d show False by (auto dest: dvd_imp_le)
qed

text \<open>
  In exact integer arithmetic the state 230538014 would step to \<open>0x7fffffff\<close>; its
  product with the multiplier is above \<open>2^53\<close>, where a double keeps no odd value.
\<close>

lemma exact_step_all_ones:
  "(230538014 * 1103515245 + 12345) mod 2147483648 = (2147483647 :: nat)
   \<and> (9007199254740992 :: nat) < 230538014 * 1103515245"
  by simp

section \<open>The seeded generator\<close>

lemma int32_and_mask: "signed_take_bit 31 k AND 0x7fffffff = k mod 2147483648" for k :: int
proof -
  have m: "(0x7fffffff :: int) = mask 31" by (simp add: mask_eq_exp_minus_1)
  have "signed_take_bit 31 k AND mask 31 = take_bit 31 (signed_take_bit 31 k)"
    by (simp only: take_bit_eq_mask)
  also have "\<dots> = take_bit 31 k" by (simp add: take_bit_signed_take_bit)
  also have "\<dots> = k mod 2147483648" by (simp add: take_bit_eq_mod)
  finally show ?thesis by (simp only: m)
qed

lemma nextSeed_floor:
  assumes "0 \<le> v"
  shows "nat (toInt32 v AND 0x7fffffff) = nat (\<lfloor>v\<rfloor> mod 2147483648)"
  using assms by (simp only: toInt32_def if_True int32_and_mask)

lemma roundToDouble_nat:
  "n < 2 ^ 53 \<Longrightarrow> roundToDouble (of_nat n) = of_nat n"
  using roundToDouble_of_int [of "int n"] by simp

lemma even_mod_pow: "(2 * j) mod 2147483648 \<noteq> 2147483647" for j :: int
proof
  assume h: "(2 * j) mod 2147483648 = 2147483647"
  have "(2::int) dvd 2147483648" by simp
  then have "(2 * j) mod 2147483648 mod 2 = (2 * j) mod 2" by (rule mod_mod_cancel)
  with h have "(2147483647::int) mod 2 = (2 * j) mod 2" by simp
  then show False by simp
qed

lemma floor_even_mod:
  "\<lfloor>2 * (of_int j :: rat)\<rfloor> mod 2147483648 \<noteq> 2147483647"
proof -
  have "2 * (of_int j :: rat) = of_int (2 * j)" by simp
  then have "\<lfloor>2 * (of_int j :: rat)\<rfloor> = 2 * j" by (simp only: floor_of_int)
  then show ?thesis by (simp only: even_mod_pow not_False_eq_True)
qed

lemma two_powi_53: "(2::rat) powi 53 = 9007199254740992"
  by simp

lemma nat_mod_lt: "nat (k mod 2147483648) < 2147483648" for k :: int
proof -
  have "k mod 2147483648 < 2147483648" by simp
  then show ?thesis by linarith
qed

lemma big_nat: "(9007199254740992::nat) \<le> n \<Longrightarrow> (9007199254740992 :: rat) \<le> of_nat n"
proof -
  assume "(9007199254740992::nat) \<le> n"
  then have "(of_nat (9007199254740992::nat) :: rat) \<le> of_nat n" by (rule iffD2 [OF of_nat_le_iff])
  then show ?thesis by simp
qed

lemma nextSeed_bound: "nextSeed s < 2147483647"
proof -
  define P where "P = s * 1103515245"
  define v where "v = fadd (fmul (of_nat s) 1103515245) 12345"
  have p: "of_nat s * (1103515245 :: rat) = of_nat P" by (simp add: P_def)
  have v: "v = roundToDouble (roundToDouble (of_nat P) + 12345)"
    by (simp only: v_def fadd_def fmul_def p)
  have nonneg: "0 \<le> roundToDouble (of_nat P)" by (rule roundToDouble_nonneg) simp
  have v0: "0 \<le> v" unfolding v using nonneg by (intro roundToDouble_nonneg) simp
  have ns: "nextSeed s = nat (\<lfloor>v\<rfloor> mod 2147483648)"
    unfolding nextSeed_def v_def [symmetric] using v0 by (rule nextSeed_floor)
  have "\<lfloor>v\<rfloor> mod 2147483648 \<noteq> 2147483647"
  proof (cases "P + 12345 < 9007199254740992")
    case True
    then have "P < 2 ^ 53" by simp
    then have "roundToDouble (of_nat P) = of_nat P" by (rule roundToDouble_nat)
    then have "v = roundToDouble (of_nat (P + 12345))" by (simp add: v)
    also have "\<dots> = of_nat (P + 12345)" using True by (intro roundToDouble_nat) simp
    finally have "\<lfloor>v\<rfloor> = int (P + 12345)" by simp
    then have "\<lfloor>v\<rfloor> mod 2147483648 = int ((P + 12345) mod 2147483648)"
      by (simp add: zmod_int)
    moreover have "(P + 12345) mod 2147483648 \<noteq> 2147483647"
      using True unfolding P_def by (rule lcg_never_all_ones)
    ultimately show ?thesis by simp
  next
    case False
    have big: "2 powi 53 \<le> roundToDouble (of_nat P) + 12345"
    proof (cases "P < 9007199254740992")
      case True
      then have "P < 2 ^ 53" by simp
      then have "roundToDouble (of_nat P) = of_nat P" by (rule roundToDouble_nat)
      moreover have "(9007199254740992 :: rat) \<le> of_nat (P + 12345)"
        using False by (intro big_nat) simp
      ultimately show ?thesis by (simp add: two_powi_53)
    next
      case False
      then have "(9007199254740992 :: rat) \<le> of_nat P"
        by (intro big_nat) simp
      then have "2 powi 53 \<le> (of_nat P :: rat)" by (simp only: two_powi_53)
      then have "2 powi 53 \<le> roundToDouble (of_nat P)" by (rule roundToDouble_big_ge)
      then show ?thesis by linarith
    qed
    from roundToDouble_big [OF big] obtain j where "v = 2 * of_int j" unfolding v by blast
    then show ?thesis by (simp only: floor_even_mod not_False_eq_True)
  qed
  moreover have "nat (\<lfloor>v\<rfloor> mod 2147483648) < 2147483648" by (rule nat_mod_lt)
  moreover have "0 \<le> \<lfloor>v\<rfloor> mod 2147483648" by simp
  ultimately show ?thesis unfolding ns by linarith
qed

lemma belowOne_exact: "roundToDouble belowOne = belowOne"
  unfolding belowOne_def using roundToDouble_exact [of 2147483647 "- 31"] by simp

lemma belowOne_value: "belowOne = 1 - 2 powi (- 31)"
  by (simp add: belowOne_def power_int_minus)

lemma next_range:
  "0 \<le> fst (SeededRandom_next random) \<and> fst (SeededRandom_next random) \<le> belowOne"
proof -
  define s where "s = nextSeed (seed random)"
  have q: "fst (SeededRandom_next random) = roundToDouble (of_nat s / 2147483647)"
    by (simp add: SeededRandom_next_def Let_def fdiv_def s_def)
  have "s < 2147483647" unfolding s_def by (rule nextSeed_bound)
  then have "s \<le> 2147483646" by simp
  then have "(of_nat s :: rat) \<le> of_nat 2147483646" by (simp only: of_nat_le_iff)
  then have "(of_nat s :: rat) \<le> 2147483646" by simp
  then have "(of_nat s :: rat) / 2147483647 \<le> 2147483646 / 2147483647"
    by (rule divide_right_mono) simp
  also have "\<dots> \<le> belowOne" by (simp add: belowOne_def power_int_minus)
  finally have le: "(of_nat s :: rat) / 2147483647 \<le> belowOne" .
  have nn: "0 \<le> (of_nat s :: rat) / 2147483647" by simp
  from roundToDouble_mono [OF nn le] have "roundToDouble (of_nat s / 2147483647) \<le> belowOne"
    by (simp only: belowOne_exact)
  moreover from nn have "0 \<le> roundToDouble (of_nat s / 2147483647)" by (rule roundToDouble_nonneg)
  ultimately show ?thesis by (simp only: q)
qed

lemma fmul_below:
  assumes "0 \<le> q" "q \<le> belowOne" "1 \<le> n"
  shows "roundToDouble (q * of_nat n) < of_nat n"
proof -
  define x :: rat where "x = of_nat n"
  have x1: "1 \<le> x" using assms(3) by (simp add: x_def)
  then have x: "0 < x" by simp
  define u where "u = ulpOf x"
  have u: "0 < u" unfolding u_def by (rule ulpOf_pos)
  define t where "t = x / u"
  have t: "2 powi 52 \<le> t" "t < 2 powi 53"
    using significand_bounds [OF x] by (simp_all add: t_def u_def)
  define m where "m = \<lceil>t\<rceil> - 1"
  have mt: "of_int m < t" "t - 1 \<le> of_int m"
    using ceiling_correct [of t] by (simp_all add: m_def)
  have "(1::rat) \<le> 2 powi 52" by simp
  with t(1) have "1 \<le> t" by linarith
  then have "1 \<le> \<lceil>t\<rceil>" by (simp add: le_ceiling_iff)
  then have m0: "0 \<le> m" by (simp add: m_def)
  from mt(1) t(2) have "of_int m < (2::rat) powi 53" by linarith
  then have "(of_int m :: rat) < of_int (2 ^ 53)" by simp
  then have m53: "m < 2 ^ 53" by (simp only: of_int_less_iff)
  define R where "R = of_int m * u"
  have "roundToDouble (of_int m * 2 powi (ilog2 x - 52)) = of_int m * 2 powi (ilog2 x - 52)"
    using m0 m53 by (rule roundToDouble_exact)
  then have Rex: "roundToDouble R = R" by (simp only: R_def u_def ulpOf_def)
  have tu: "t * u = x" using u by (simp add: t_def)
  have "of_int m * u < t * u" using mt(1) u by (rule mult_strict_right_mono)
  then have Rx: "R < x" by (simp only: R_def tu)
  have "(t - 1) * u \<le> of_int m * u" using mt(2) u by (intro mult_right_mono) simp_all
  then have xR: "x - u \<le> R" by (simp add: R_def algebra_simps tu)
  have "u = 2 powi (ilog2 x) * 2 powi (- 52)"
    unfolding u_def ulpOf_def two_powi_add by simp
  also have "\<dots> \<le> 2 powi (ilog2 x) * 2 powi (- 31)"
    by (intro mult_left_mono power_int_increasing) simp_all
  also have "\<dots> \<le> x * 2 powi (- 31)"
    using ilog2_bounds [OF x] by (intro mult_right_mono) simp_all
  finally have ux: "u \<le> x * 2 powi (- 31)" .
  have "q * x \<le> belowOne * x" using assms(2) x by (intro mult_right_mono) simp_all
  also have "\<dots> = x - x * 2 powi (- 31)" by (simp add: belowOne_value algebra_simps)
  also have "\<dots> \<le> x - u" using ux by simp
  also have "\<dots> \<le> R" by (rule xR)
  finally have qR: "q * x \<le> R" .
  have "0 \<le> q * x" using assms(1) x by simp
  from roundToDouble_mono [OF this qR] have "roundToDouble (q * x) \<le> R" by (simp only: Rex)
  with Rx show ?thesis unfolding x_def by linarith
qed

lemma nextInt_range:
  assumes "1 \<le> n"
  shows "0 \<le> fst (nextInt random n) \<and> fst (nextInt random n) < int n"
proof -
  define q where "q = fst (SeededRandom_next random)"
  have i: "fst (nextInt random n) = \<lfloor>roundToDouble (q * of_nat n)\<rfloor>"
    by (simp add: nextInt_def q_def fmul_def split: prod.splits)
  from next_range have q: "0 \<le> q" "q \<le> belowOne" by (simp_all add: q_def)
  have "0 \<le> q * of_nat n" using q(1) by simp
  then have "0 \<le> roundToDouble (q * of_nat n)" by (rule roundToDouble_nonneg)
  then have lo: "0 \<le> \<lfloor>roundToDouble (q * of_nat n)\<rfloor>" by simp
  from fmul_below [OF q assms] have "roundToDouble (q * of_nat n) < of_int (int n)" by simp
  then have "\<lfloor>roundToDouble (q * of_nat n)\<rfloor> < int n" by (simp only: floor_less_iff)
  with lo show ?thesis by (simp only: i)
qed

lemma arrayGet_in_range:
  "0 \<le> i \<Longrightarrow> i < int (length xs) \<Longrightarrow> arrayGet xs i = Some (xs ! nat i) \<and> xs ! nat i \<in> set xs"
  by (simp add: arrayGet_def)

text \<open>
  C10. For every state of the generator and every candidate list of length at least 1,
  \<open>next()\<close> returns a value below 1, the index that \<open>nextInt\<close> draws is in
  \<open>0 .. length - 1\<close>, and \<open>selectEmoji\<close> in mode \<open>random\<close> returns a member of the
  list. The state never becomes \<open>0x7fffffff\<close>, the only one for which the quotient
  would be 1: below \<open>2^53\<close> the product is exact and the congruence has no solution
  there, above it the rounded product is even.
\<close>

theorem random_index_in_range:
  assumes "1 \<le> length emojis"
  shows "fst (SeededRandom_next random) < 1
     \<and> 0 \<le> fst (nextInt random (length emojis))
     \<and> fst (nextInt random (length emojis)) < int (length emojis)
     \<and> (\<exists>e. e \<in> set emojis
            \<and> fst (selectEmoji emojis row col totalRows totalCols Random random) = Some e)"
proof -
  have "belowOne < 1" by (simp add: belowOne_value)
  with next_range [of random] have a: "fst (SeededRandom_next random) < 1" by linarith
  note r = nextInt_range [OF assms, of random]
  have "\<exists>e. e \<in> set emojis
            \<and> fst (selectEmoji emojis row col totalRows totalCols Random random) = Some e"
  proof (cases "length emojis = 1")
    case True
    then have "arrayGet emojis 0 = Some (emojis ! nat 0) \<and> emojis ! nat 0 \<in> set emojis"
      by (intro arrayGet_in_range) simp_all
    with True show ?thesis by (simp add: selectEmoji_def)
  next
    case False
    obtain i random' where n: "nextInt random (length emojis) = (i, random')"
      by (cases "nextInt random (length emojis)")
    with r have "0 \<le> i" "i < int (length emojis)" by simp_all
    then have "arrayGet emojis i = Some (emojis ! nat i) \<and> emojis ! nat i \<in> set emojis"
      by (rule arrayGet_in_range)
    with False n show ?thesis by (simp add: selectEmoji_def)
  qed
  with a r show ?thesis by simp
qed

theorem random_index_in_range_witness:
  "(1::nat) \<le> length [[0x61 :: jschar], [0x62], [0x63]]
   \<and> fst (nextInt (SeededRandom_new (Some 42) 0) (length [[0x61 :: jschar], [0x62], [0x63]]))
       < int (length [[0x61 :: jschar], [0x62], [0x63]])
   \<and> fst (SeededRandom_next (SeededRandom_new (Some 42) 0)) < 1"
proof -
  have l: "(1::nat) \<le> length [[0x61 :: jschar], [0x62], [0x63]]" by simp
  from random_index_in_range [OF l, of "SeededRandom_new (Some 42) 0" 0 0 0 0] l
  show ?thesis by blast
qed

section \<open>Gradient modes\<close>

lemma gradientIndex_unfold:
  "gradientIndex pos totalCount count =
     min \<lfloor>fmul (if 1 < totalCount then fdiv (of_nat pos) (of_nat totalCount - 1) else 0)
               (of_nat count - 1)\<rfloor> (int count - 1)"
  by (simp add: gradientIndex_def Let_def)

lemma progress_nonneg:
  "0 \<le> (if 1 < totalCount then fdiv (of_nat pos) (of_nat totalCount - 1) else 0)"
proof (cases "1 < totalCount")
  case True
  then have "(0::rat) \<le> of_nat pos / (of_nat totalCount - 1)" by simp
  then show ?thesis using True by (simp add: fdiv_def roundToDouble_nonneg)
next
  case False
  then show ?thesis by simp
qed

lemma gradientIndex_range:
  assumes "1 \<le> count"
  shows "0 \<le> gradientIndex pos totalCount count \<and> gradientIndex pos totalCount count < int count"
proof -
  let ?p = "if 1 < totalCount then fdiv (of_nat pos) (of_nat totalCount - 1) else 0"
  have "(0::rat) \<le> of_nat count - 1" using assms by simp
  with progress_nonneg [of totalCount pos] have "0 \<le> ?p * (of_nat count - 1)" by (rule mult_nonneg_nonneg)
  then have "0 \<le> fmul ?p (of_nat count - 1)" unfolding fmul_def by (rule roundToDouble_nonneg)
  then have "0 \<le> \<lfloor>fmul ?p (of_nat count - 1)\<rfloor>" by simp
  then show ?thesis using assms unfolding gradientIndex_unfold by simp
qed

lemma gradientIndex_mono:
  assumes "1 \<le> count" "pos \<le> pos'"
  shows "gradientIndex pos totalCount count \<le> gradientIndex pos' totalCount count"
proof (cases "1 < totalCount")
  case False
  then show ?thesis by (simp add: gradientIndex_unfold)
next
  case True
  have c: "(0::rat) \<le> of_nat count - 1" using assms(1) by simp
  have d: "(0::rat) < of_nat totalCount - 1" using True by simp
  have "(of_nat pos :: rat) \<le> of_nat pos'" using assms(2) by simp
  then have "(of_nat pos :: rat) / (of_nat totalCount - 1) \<le> of_nat pos' / (of_nat totalCount - 1)"
    using d by (simp add: divide_right_mono)
  moreover have "(0::rat) \<le> of_nat pos / (of_nat totalCount - 1)" using d by simp
  ultimately have p: "fdiv (of_nat pos) (of_nat totalCount - 1) \<le> fdiv (of_nat pos') (of_nat totalCount - 1)"
    unfolding fdiv_def by (intro roundToDouble_mono)
  have p0: "0 \<le> fdiv (of_nat pos) (of_nat totalCount - 1)"
    using progress_nonneg [of totalCount pos] True by simp
  from p c have "fdiv (of_nat pos) (of_nat totalCount - 1) * (of_nat count - 1)
      \<le> fdiv (of_nat pos') (of_nat totalCount - 1) * (of_nat count - 1)"
    by (rule mult_right_mono)
  moreover from p0 c have "0 \<le> fdiv (of_nat pos) (of_nat totalCount - 1) * (of_nat count - 1)"
    by (rule mult_nonneg_nonneg)
  ultimately have "fmul (fdiv (of_nat pos) (of_nat totalCount - 1)) (of_nat count - 1)
      \<le> fmul (fdiv (of_nat pos') (of_nat totalCount - 1)) (of_nat count - 1)"
    unfolding fmul_def by (intro roundToDouble_mono)
  then have "\<lfloor>fmul (fdiv (of_nat pos) (of_nat totalCount - 1)) (of_nat count - 1)\<rfloor>
      \<le> \<lfloor>fmul (fdiv (of_nat pos') (of_nat totalCount - 1)) (of_nat count - 1)\<rfloor>"
    by (rule floor_mono)
  then have "min \<lfloor>fmul (fdiv (of_nat pos) (of_nat totalCount - 1)) (of_nat count - 1)\<rfloor> (int count - 1)
      \<le> min \<lfloor>fmul (fdiv (of_nat pos') (of_nat totalCount - 1)) (of_nat count - 1)\<rfloor> (int count - 1)"
    by linarith
  then show ?thesis using True by (simp only: gradientIndex_unfold if_True)
qed

lemma roundToDouble_0: "roundToDouble 0 = 0"
  by (simp add: roundToDouble_def)

lemma roundToDouble_1: "roundToDouble 1 = 1"
  using roundToDouble_of_int [of 1] by simp

lemma gradientIndex_first:
  assumes "1 \<le> count"
  shows "gradientIndex 0 totalCount count = 0"
  using assms by (simp add: gradientIndex_unfold fdiv_def fmul_def roundToDouble_0)

lemma gradientIndex_last:
  assumes "1 \<le> count" "count < 2 ^ 32" "2 \<le> totalCount"
  shows "gradientIndex (totalCount - 1) totalCount count = int count - 1"
proof -
  have e: "(of_nat (totalCount - 1) :: rat) = of_nat totalCount - 1" using assms(3) by (simp add: of_nat_diff)
  have "(of_nat totalCount :: rat) - 1 \<noteq> 0" using assms(3) by simp
  then have "(of_nat totalCount - 1) / (of_nat totalCount - 1) = (1::rat)" by (rule divide_self)
  then have p: "fdiv (of_nat totalCount - 1) (of_nat totalCount - 1) = 1"
    by (simp only: fdiv_def roundToDouble_1)
  have c: "(of_nat count :: rat) - 1 = of_int (int count - 1)" by simp
  have "int count - 1 < 2 ^ 53" using assms(2) by simp
  moreover have "0 \<le> int count - 1" using assms(1) by simp
  ultimately have "roundToDouble (of_int (int count - 1)) = of_int (int count - 1)"
    by (intro roundToDouble_of_int)
  then have "fmul 1 (of_nat count - 1) = of_int (int count - 1)"
    by (simp only: fmul_def mult_1 c)
  then have f: "\<lfloor>fmul 1 (of_nat count - 1)\<rfloor> = int count - 1" by (simp only: floor_of_int)
  have t: "1 < totalCount" using assms(3) by simp
  show ?thesis by (simp only: gradientIndex_unfold t if_True e p f min.idem)
qed

lemma gradientIndex_single:
  assumes "1 \<le> count" "totalCount \<le> 1"
  shows "gradientIndex pos totalCount count = 0"
  using assms by (simp add: gradientIndex_unfold fmul_def roundToDouble_0)

lemma selectEmoji_gradient:
  assumes "2 \<le> length emojis"
  shows "selectEmoji emojis row col totalRows totalCols RowGradient random
           = (Some (emojis ! nat (gradientIndex row totalRows (length emojis))), random)"
    and "selectEmoji emojis row col totalRows totalCols ColumnGradient random
           = (Some (emojis ! nat (gradientIndex col totalCols (length emojis))), random)"
proof -
  from assms have n: "1 \<le> length emojis" "length emojis \<noteq> 1" by simp_all
  from gradientIndex_range [OF n(1), of row totalRows]
  have "arrayGet emojis (gradientIndex row totalRows (length emojis))
      = Some (emojis ! nat (gradientIndex row totalRows (length emojis)))"
    by (simp add: arrayGet_def)
  then show "selectEmoji emojis row col totalRows totalCols RowGradient random
           = (Some (emojis ! nat (gradientIndex row totalRows (length emojis))), random)"
    using n(2) by (simp add: selectEmoji_def)
  from gradientIndex_range [OF n(1), of col totalCols]
  have "arrayGet emojis (gradientIndex col totalCols (length emojis))
      = Some (emojis ! nat (gradientIndex col totalCols (length emojis)))"
    by (simp add: arrayGet_def)
  then show "selectEmoji emojis row col totalRows totalCols ColumnGradient random
           = (Some (emojis ! nat (gradientIndex col totalCols (length emojis))), random)"
    using n(2) by (simp add: selectEmoji_def)
qed

text \<open>
  The index that the code computes is the exact one or the one before it: the two
  roundings move the product by less than \<open>1 / (total - 1)\<close>, the least distance of
  the exact product below the next integer.
\<close>

lemma gradientIndex_near_formula:
  assumes "1 \<le> count" "2 \<le> totalCount" "pos * (count - 1) < 2 ^ 51"
  shows "gradientFormula pos totalCount count - 1 \<le> gradientIndex pos totalCount count
       \<and> gradientIndex pos totalCount count \<le> gradientFormula pos totalCount count"
proof -
  define n :: rat where "n = of_nat count - 1"
  define t :: rat where "t = of_nat totalCount - 1"
  define r :: rat where "r = of_nat pos"
  define E where "E = (r / t) * n"
  define p where "p = fdiv r t"
  define y where "y = fmul p n"
  define eps :: rat where "eps = 2 powi (- 53)"
  have n0: "0 \<le> n" using assms(1) by (simp add: n_def)
  have t1: "1 \<le> t" using assms(2) by (simp add: t_def)
  have r0: "0 \<le> r" by (simp add: r_def)
  have E0: "0 \<le> E" using n0 t1 r0 by (simp add: E_def)
  have eps: "0 < eps" "eps \<le> 1" "eps = 1 / 2 ^ 53"
    by (simp_all add: eps_def power_int_minus field_simps)
  have ntn: "n = of_nat (count - 1)" using assms(1) by (simp add: n_def of_nat_diff)
  have tt: "t = of_nat (totalCount - 1)" using assms(2) by (simp add: t_def of_nat_diff)
  have "r * n = of_nat (pos * (count - 1))" by (simp add: r_def ntn)
  also have "\<dots> < of_nat (2 ^ 51)" using assms(3) by (simp only: of_nat_less_iff)
  finally have rn: "r * n < 2 ^ 51" by simp
  have Et: "E * t = r * n" using t1 by (simp add: E_def)
  have close: "\<bar>y - E\<bar> \<le> 3 * E * eps"
  proof (cases "0 < r \<and> 0 < n")
    case False
    then have "r = 0 \<or> n = 0" using r0 n0 by auto
    then have "y = 0 \<and> E = 0"
      by (auto simp: y_def p_def E_def fdiv_def fmul_def roundToDouble_0)
    then show ?thesis by simp
  next
    case True
    then have x1: "0 < r / t" using t1 by simp
    from roundToDouble_err [OF x1] have e1: "\<bar>p - r / t\<bar> \<le> (r / t) * eps"
      by (simp add: p_def fdiv_def eps_def)
    have "eps < 1" by (simp add: eps(3))
    from mult_strict_left_mono [OF this x1] have "(r / t) * eps < r / t" by simp
    with e1 have p0: "0 < p" by linarith
    then have x2: "0 < p * n" using True by simp
    from roundToDouble_err [OF x2] have e2: "\<bar>y - p * n\<bar> \<le> (p * n) * eps"
      by (simp add: y_def fmul_def eps_def)
    have "p * n - E = (p - r / t) * n" by (simp add: E_def left_diff_distrib)
    then have "\<bar>p * n - E\<bar> = \<bar>p - r / t\<bar> * n" using n0 by (simp only: abs_mult abs_of_nonneg)
    also have "\<dots> \<le> ((r / t) * eps) * n" using e1 n0 by (rule mult_right_mono)
    also have "\<dots> = E * eps" by (simp add: E_def)
    finally have e3: "\<bar>p * n - E\<bar> \<le> E * eps" .
    then have "p * n \<le> E + E * eps" by linarith
    then have "(p * n) * eps \<le> (E + E * eps) * eps" using eps(1) by (intro mult_right_mono) simp_all
    also have "\<dots> \<le> (E + E * 1) * eps" using eps E0 by (intro mult_right_mono add_left_mono mult_left_mono) simp_all
    finally have e4: "(p * n) * eps \<le> 2 * E * eps" by simp
    have "\<bar>y - E\<bar> \<le> \<bar>y - p * n\<bar> + \<bar>p * n - E\<bar>" by linarith
    with e2 e3 e4 show ?thesis by linarith
  qed
  have "3 * (E * t) * eps < 1" using rn by (simp add: Et eps(3))
  then have "3 * E * eps * t < 1" by (simp add: mult_ac)
  then have small: "3 * E * eps < 1 / t" using t1 by (simp add: field_simps)
  have "1 / t \<le> 1" using t1 by simp
  with small have small1: "3 * E * eps < 1" by linarith
  have fl: "of_int \<lfloor>E\<rfloor> \<le> E" by simp
  have "E < of_int (\<lfloor>E\<rfloor> + 1)" by linarith
  then have "E * t < of_int (\<lfloor>E\<rfloor> + 1) * t" using t1 by (intro mult_strict_right_mono) simp_all
  moreover define K T where "K = int (pos * (count - 1))" and "T = int (totalCount - 1)"
  moreover have EK: "E * t = of_int K" by (simp add: Et r_def ntn K_def)
  moreover have tT: "t = of_int T" by (simp add: tt T_def)
  ultimately have "(of_int K :: rat) < of_int ((\<lfloor>E\<rfloor> + 1) * T)" by (simp only: of_int_mult)
  then have "K < (\<lfloor>E\<rfloor> + 1) * T" by (simp only: of_int_less_iff)
  then have "K + 1 \<le> (\<lfloor>E\<rfloor> + 1) * T" by simp
  then have "(of_int (K + 1) :: rat) \<le> of_int ((\<lfloor>E\<rfloor> + 1) * T)" by (simp only: of_int_le_iff)
  then have "of_int K + 1 \<le> of_int (\<lfloor>E\<rfloor> + 1) * (of_int T :: rat)" by simp
  then have "E * t + 1 \<le> of_int (\<lfloor>E\<rfloor> + 1) * t" unfolding EK unfolding tT .
  then have "E + 1 / t \<le> of_int (\<lfloor>E\<rfloor> + 1)" using t1 by (simp add: field_simps)
  with close small have "y < of_int (\<lfloor>E\<rfloor> + 1)" by linarith
  then have "\<lfloor>y\<rfloor> < \<lfloor>E\<rfloor> + 1" by (simp only: floor_less_iff)
  then have up: "\<lfloor>y\<rfloor> \<le> \<lfloor>E\<rfloor>" by simp
  have "of_int (\<lfloor>E\<rfloor> - 1) = (of_int \<lfloor>E\<rfloor> :: rat) - 1" by simp
  with close small1 fl have "of_int (\<lfloor>E\<rfloor> - 1) \<le> y" by linarith
  then have lo: "\<lfloor>E\<rfloor> - 1 \<le> \<lfloor>y\<rfloor>" by (simp only: le_floor_iff)
  have gi: "gradientIndex pos totalCount count = min \<lfloor>y\<rfloor> (int count - 1)"
    using assms(2) by (simp add: gradientIndex_unfold y_def p_def r_def t_def n_def)
  have gf: "gradientFormula pos totalCount count = min \<lfloor>E\<rfloor> (int count - 1)"
    using assms(2) by (simp add: gradientFormula_def E_def r_def t_def n_def)
  show ?thesis unfolding gi gf using up lo by linarith
qed

text \<open>
  C4, counterexample. With 23 rows and 23 candidates, the formula gives index 15 at row
  15, since \<open>(15 / 22) * 22 = 15\<close>. The code divides and multiplies in double
  arithmetic: \<open>15 / 22\<close> is rounded down, the product stays below 15, and the candidate
  at index 14 is selected.
\<close>

theorem gradient_formula_counterexample:
  "selectEmoji letters23 15 0 23 1 RowGradient (SeededRandom_new (Some 42) 0)
     = (Some (letters23 ! 14), SeededRandom_new (Some 42) 0)
   \<and> gradientIndex 15 23 (length letters23) = 14
   \<and> gradientFormula 15 23 (length letters23) = 15
   \<and> letters23 ! 14 \<noteq> letters23 ! 15"
  by (simp add: letters23_def gradientFormula_def) code_simp

text \<open>
  C4, amended. With at least two candidates (an array has fewer than \<open>2^32\<close> elements),
  the modes \<open>row-gradient\<close> and \<open>column-gradient\<close> select the candidate at the index
  obtained by evaluating \<open>floor((pos / (total - 1)) * (N - 1))\<close> in double arithmetic
  (the quotient and the product each rounded to the nearest double) and clamping it to
  \<open>N - 1\<close>, \<open>pos\<close> being the row or column and \<open>total\<close> the number of rows or
  columns. The index is 0 when \<open>total\<close> is 1. For \<open>total\<close> at least 2 it is
  non-decreasing in \<open>pos\<close>, 0 at position 0 and \<open>N - 1\<close> at position \<open>total - 1\<close>,
  and, as long as \<open>pos * (N - 1)\<close> is below \<open>2^51\<close>, it is the index of the formula in
  exact arithmetic or the one before it.
\<close>

theorem gradient_selection:
  assumes "2 \<le> length emojis" "length emojis < 2 ^ 32"
  shows "selectEmoji emojis row col totalRows totalCols RowGradient random
           = (Some (emojis ! nat (gradientIndex row totalRows (length emojis))), random)
     \<and> selectEmoji emojis row col totalRows totalCols ColumnGradient random
           = (Some (emojis ! nat (gradientIndex col totalCols (length emojis))), random)
     \<and> gradientIndex pos totalCount (length emojis)
           = min \<lfloor>fmul (if 1 < totalCount then fdiv (of_nat pos) (of_nat totalCount - 1) else 0)
                        (of_nat (length emojis) - 1)\<rfloor>
                 (int (length emojis) - 1)
     \<and> (totalCount = 1 \<longrightarrow> gradientIndex pos totalCount (length emojis) = 0)
     \<and> (2 \<le> totalCount \<longrightarrow>
          (pos \<le> pos' \<longrightarrow> gradientIndex pos totalCount (length emojis)
                               \<le> gradientIndex pos' totalCount (length emojis))
          \<and> gradientIndex 0 totalCount (length emojis) = 0
          \<and> gradientIndex (totalCount - 1) totalCount (length emojis) = int (length emojis) - 1
          \<and> (pos * (length emojis - 1) < 2 ^ 51 \<longrightarrow>
                gradientFormula pos totalCount (length emojis) - 1
                  \<le> gradientIndex pos totalCount (length emojis)
                \<and> gradientIndex pos totalCount (length emojis)
                  \<le> gradientFormula pos totalCount (length emojis)))"
proof -
  from assms(1) have n: "1 \<le> length emojis" by simp
  show ?thesis
  proof (intro conjI impI)
    show "selectEmoji emojis row col totalRows totalCols RowGradient random
           = (Some (emojis ! nat (gradientIndex row totalRows (length emojis))), random)"
      by (rule selectEmoji_gradient(1) [OF assms(1)])
    show "selectEmoji emojis row col totalRows totalCols ColumnGradient random
           = (Some (emojis ! nat (gradientIndex col totalCols (length emojis))), random)"
      by (rule selectEmoji_gradient(2) [OF assms(1)])
    show "gradientIndex pos totalCount (length emojis)
           = min \<lfloor>fmul (if 1 < totalCount then fdiv (of_nat pos) (of_nat totalCount - 1) else 0)
                        (of_nat (length emojis) - 1)\<rfloor>
                 (int (length emojis) - 1)"
      by (rule gradientIndex_unfold)
    show "gradientIndex pos totalCount (length emojis) = 0" if "totalCount = 1"
      using n that by (intro gradientIndex_single) simp_all
    show "gradientIndex pos totalCount (length emojis) \<le> gradientIndex pos' totalCount (length emojis)"
      if "pos \<le> pos'"
      using n that by (rule gradientIndex_mono)
    show "gradientIndex 0 totalCount (length emojis) = 0"
      using n by (rule gradientIndex_first)
    show "gradientIndex (totalCount - 1) totalCount (length emojis) = int (length emojis) - 1"
      if "2 \<le> totalCount"
      using n assms(2) that by (rule gradientIndex_last)
    show "gradientFormula pos totalCount (length emojis) - 1
            \<le> gradientIndex pos totalCount (length emojis)"
      if "2 \<le> totalCount" "pos * (length emojis - 1) < 2 ^ 51"
      using gradientIndex_near_formula [OF n that] by simp
    show "gradientIndex pos totalCount (length emojis)
            \<le> gradientFormula pos totalCount (length emojis)"
      if "2 \<le> totalCount" "pos * (length emojis - 1) < 2 ^ 51"
      using gradientIndex_near_formula [OF n that] by simp
  qed
qed

theorem gradient_selection_witness:
  "(2::nat) \<le> length letters23
   \<and> length letters23 < 2 ^ 32
   \<and> 15 * (length letters23 - 1) < (2::nat) ^ 51
   \<and> selectEmoji letters23 15 0 23 1 RowGradient (SeededRandom_new (Some 42) 0)
        = (Some (letters23 ! nat (gradientIndex 15 23 (length letters23))),
           SeededRandom_new (Some 42) 0)
   \<and> gradientIndex 0 23 (length letters23) = 0
   \<and> gradientIndex (23 - 1) 23 (length letters23) = int (length letters23) - 1
   \<and> gradientIndex 15 23 (length letters23) \<le> gradientIndex 16 23 (length letters23)
   \<and> gradientFormula 15 23 (length letters23) - 1 \<le> gradientIndex 15 23 (length letters23)
   \<and> gradientIndex 15 23 (length letters23) \<le> gradientFormula 15 23 (length letters23)
   \<and> gradientIndex 15 1 (length letters23) = 0"
proof -
  have a: "(2::nat) \<le> length letters23" by (simp add: letters23_def)
  have b: "length letters23 < 2 ^ 32" by (simp add: letters23_def)
  have c: "(2::nat) \<le> 23" "(15::nat) \<le> 16" "15 * (length letters23 - 1) < (2::nat) ^ 51"
    by (simp_all add: letters23_def)
  from gradient_selection [OF a b, of 15 0 23 1 "SeededRandom_new (Some 42) 0" 15 23 16]
    gradient_selection [OF a b, of 15 0 23 1 "SeededRandom_new (Some 42) 0" 15 1 16] a b c
  show ?thesis by blast
qed

section \<open>Rendering\<close>

lemmas width_defs = getDisplayWidth_def isLikelyCustomEmoji_def trim_def isWhiteSpace_def
  testClass_def codePointValue_def EMOJI_REGEX_def WIDE_CHAR_REGEX_def matchesAlias_def
  isAliasChar_def colon_def getGraphemes_def graphemeWidth_def isHighSurrogate_def
  isLowSurrogate_def sampleRuntime_def Let_def

lemma width_alias: "getDisplayWidth sampleRuntime [0x3A, 0x61, 0x3A] = 2"
  by (simp add: width_defs)

lemma width_wide: "getDisplayWidth sampleRuntime [0x4E00, 0x4E00] = 4"
  by (simp add: width_defs)

lemma width_space: "getDisplayWidth sampleRuntime [0x20] = 1"
  by (simp add: width_defs)

lemma padLoop_eq: "padLoop result width targetWidth = result @ replicate (targetWidth - width) space"
proof (induction result width targetWidth rule: padLoop.induct)
  case (1 result width targetWidth)
  show ?case
  proof (cases "width < targetWidth")
    case True
    then have "padLoop result width targetWidth = padLoop (result @ [space]) (width + 1) targetWidth"
      by (subst padLoop.simps) simp
    also have "\<dots> = (result @ [space]) @ replicate (targetWidth - (width + 1)) space"
      using True by (rule "1.IH")
    also have "\<dots> = result @ replicate (Suc (targetWidth - (width + 1))) space" by simp
    also have "Suc (targetWidth - (width + 1)) = targetWidth - width" using True by simp
    finally show ?thesis .
  next
    case False
    then show ?thesis by (subst padLoop.simps) simp
  qed
qed

lemma getDisplayWidth_empty: "getGraphemes rt [] = [] \<Longrightarrow> getDisplayWidth rt [] = 0"
  by (simp add: getDisplayWidth_def isLikelyCustomEmoji_def trim_def)

lemma fitToWidth_fitCell:
  "getGraphemes rt [] = [] \<Longrightarrow> fitToWidth rt glyph cellWidth = cellText (fitCell rt cellWidth glyph)"
  by (simp add: fitToWidth_def fitCell_def cellText_def padToWidth_def padLoop_eq
      getDisplayWidth_empty Let_def)

lemma fitCell_width:
  "getGraphemes rt [] = [] \<Longrightarrow> cellDisplayWidth rt (fitCell rt cellWidth glyph) = cellWidth"
  by (simp add: fitCell_def cellDisplayWidth_def getDisplayWidth_empty)

lemma lineDisplayWidth_fitCell:
  "getGraphemes rt [] = [] \<Longrightarrow>
     lineDisplayWidth rt (map (fitCell rt cellWidth) glyphs) = length glyphs * cellWidth"
  by (induction glyphs) (simp_all add: lineDisplayWidth_def fitCell_width)

lemma selectEmoji_member:
  assumes "emojis \<noteq> []"
  shows "\<exists>e random'. e \<in> set emojis
           \<and> selectEmoji emojis row col totalRows totalCols m random = (Some e, random')"
proof -
  from assms have n: "1 \<le> length emojis" by (cases emojis) simp_all
  have "(0::int) < int (length emojis)" using assms by simp
  then have first: "arrayGet emojis 0 = Some (emojis ! nat 0) \<and> emojis ! nat 0 \<in> set emojis"
    by (intro arrayGet_in_range) simp_all
  show ?thesis
  proof (cases "length emojis = 1")
    case True
    with first show ?thesis by (simp add: selectEmoji_def)
  next
    case False
    have nz: "length emojis \<noteq> 0" using assms by simp
    show ?thesis
    proof (cases m)
      case Random
      obtain i random' where ni: "nextInt random (length emojis) = (i, random')"
        by (cases "nextInt random (length emojis)")
      with nextInt_range [OF n, of random] have "0 \<le> i" "i < int (length emojis)" by simp_all
      then have "arrayGet emojis i = Some (emojis ! nat i) \<and> emojis ! nat i \<in> set emojis"
        by (rule arrayGet_in_range)
      with False ni Random show ?thesis by (simp add: selectEmoji_def)
    next
      case Row
      have "int (row mod length emojis) < int (length emojis)" using nz by simp
      then have "arrayGet emojis (int (row mod length emojis))
          = Some (emojis ! nat (int (row mod length emojis)))
          \<and> emojis ! nat (int (row mod length emojis)) \<in> set emojis"
        by (intro arrayGet_in_range) simp_all
      with False nz Row show ?thesis by (simp add: selectEmoji_def)
    next
      case Column
      have "int (col mod length emojis) < int (length emojis)" using nz by simp
      then have "arrayGet emojis (int (col mod length emojis))
          = Some (emojis ! nat (int (col mod length emojis)))
          \<and> emojis ! nat (int (col mod length emojis)) \<in> set emojis"
        by (intro arrayGet_in_range) simp_all
      with False nz Column show ?thesis by (simp add: selectEmoji_def)
    next
      case RowGradient
      from gradientIndex_range [OF n, of row totalRows]
      have "arrayGet emojis (gradientIndex row totalRows (length emojis))
          = Some (emojis ! nat (gradientIndex row totalRows (length emojis)))
          \<and> emojis ! nat (gradientIndex row totalRows (length emojis)) \<in> set emojis"
        by (intro arrayGet_in_range) simp_all
      with False RowGradient show ?thesis by (simp add: selectEmoji_def)
    next
      case ColumnGradient
      from gradientIndex_range [OF n, of col totalCols]
      have "arrayGet emojis (gradientIndex col totalCols (length emojis))
          = Some (emojis ! nat (gradientIndex col totalCols (length emojis)))
          \<and> emojis ! nat (gradientIndex col totalCols (length emojis)) \<in> set emojis"
        by (intro arrayGet_in_range) simp_all
      with False ColumnGradient show ?thesis by (simp add: selectEmoji_def)
    next
      case OtherMode
      with False first show ?thesis by (simp add: selectEmoji_def)
    qed
  qed
qed

lemma calculateGitHubIntensity_range:
  "1 \<le> fst (calculateGitHubIntensity rt row col totalRows totalCols random)
   \<and> fst (calculateGitHubIntensity rt row col totalRows totalCols random) \<le> 4"
  by (simp add: calculateGitHubIntensity_def Let_def split: prod.splits)

lemma pick_member:
  assumes "emojis \<noteq> []" "theme config = Github \<longrightarrow> 5 \<le> length emojis"
  shows "\<exists>e random'. e \<in> set emojis
     \<and> (if theme config = Github
         then (case calculateGitHubIntensity rt row col h w random of
                 (i, random') \<Rightarrow> (arrayGet emojis i, random'))
         else selectEmoji emojis row col h w (mode config) random) = (Some e, random')"
proof (cases "theme config = Github")
  case True
  obtain i random' where c: "calculateGitHubIntensity rt row col h w random = (i, random')"
    by (cases "calculateGitHubIntensity rt row col h w random")
  with calculateGitHubIntensity_range [of rt row col h w random] have "1 \<le> i" "i \<le> 4" by simp_all
  with assms(2) True have "0 \<le> i" "i < int (length emojis)" by simp_all
  then have "arrayGet emojis i = Some (emojis ! nat i) \<and> emojis ! nat i \<in> set emojis"
    by (rule arrayGet_in_range)
  with True c show ?thesis by simp
next
  case False
  with selectEmoji_member [OF assms(1), of row col h w "mode config" random] show ?thesis by simp
qed

lemma renderCells_shape:
  assumes "emojis \<noteq> []" "theme config = Github \<longrightarrow> 5 \<le> length emojis"
  shows "\<exists>glyphs random'.
           renderCells rt config b emojis cw (fitToWidth rt bg cw) h w row cols line random
             = Inr (line @ concat (map (\<lambda>g. fitToWidth rt g cw) glyphs), random')
           \<and> length glyphs = length cols"
proof (induction cols arbitrary: line random)
  case Nil
  have "renderCells rt config b emojis cw (fitToWidth rt bg cw) h w row [] line random
      = Inr (line @ concat (map (\<lambda>g. fitToWidth rt g cw) []), random) \<and> length ([]::jsstring list) = length ([]::nat list)"
    by simp
  then show ?case by blast
next
  case (Cons col cols)
  show ?case
  proof (cases "col < length (b ! row) \<and> b ! row ! col")
    case True
    from pick_member [OF assms, of rt row col h w random]
    obtain e r1 where p: "(if theme config = Github
         then (case calculateGitHubIntensity rt row col h w random of
                 (i, random') \<Rightarrow> (arrayGet emojis i, random'))
         else selectEmoji emojis row col h w (mode config) random) = (Some e, r1)"
      by blast
    from Cons.IH [of "line @ fitToWidth rt e cw" r1]
    obtain glyphs r2 where g: "renderCells rt config b emojis cw (fitToWidth rt bg cw) h w row cols
          (line @ fitToWidth rt e cw) r1
        = Inr ((line @ fitToWidth rt e cw) @ concat (map (\<lambda>g. fitToWidth rt g cw) glyphs), r2)"
        "length glyphs = length cols"
      by blast
    have "renderCells rt config b emojis cw (fitToWidth rt bg cw) h w row (col # cols) line random
        = renderCells rt config b emojis cw (fitToWidth rt bg cw) h w row cols
            (line @ fitToWidth rt e cw) r1"
      using True p by (simp del: split_paired_Ex)
    with g have "renderCells rt config b emojis cw (fitToWidth rt bg cw) h w row (col # cols) line random
        = Inr (line @ concat (map (\<lambda>g. fitToWidth rt g cw) (e # glyphs)), r2)
        \<and> length (e # glyphs) = length (col # cols)"
      by simp
    then show ?thesis by blast
  next
    case False
    from Cons.IH [of "line @ fitToWidth rt bg cw" random]
    obtain glyphs r2 where g: "renderCells rt config b emojis cw (fitToWidth rt bg cw) h w row cols
          (line @ fitToWidth rt bg cw) random
        = Inr ((line @ fitToWidth rt bg cw) @ concat (map (\<lambda>g. fitToWidth rt g cw) glyphs), r2)"
        "length glyphs = length cols"
      by blast
    have "renderCells rt config b emojis cw (fitToWidth rt bg cw) h w row (col # cols) line random
        = renderCells rt config b emojis cw (fitToWidth rt bg cw) h w row cols
            (line @ fitToWidth rt bg cw) random"
      using False by auto
    with g have "renderCells rt config b emojis cw (fitToWidth rt bg cw) h w row (col # cols) line random
        = Inr (line @ concat (map (\<lambda>g. fitToWidth rt g cw) (bg # glyphs)), r2)
        \<and> length (bg # glyphs) = length (col # cols)"
      by simp
    then show ?thesis by blast
  qed
qed

lemma renderLines_shape:
  assumes "emojis \<noteq> []" "theme config = Github \<longrightarrow> 5 \<le> length emojis"
  shows "\<exists>ls random'.
           renderLines rt config b emojis cw (fitToWidth rt bg cw) h w rows lines random
             = Inr (lines @ ls, random')
           \<and> length ls = length rows \<and> (\<forall>l \<in> set ls. cellsLine rt cw w l)"
proof (induction rows arbitrary: lines random)
  case Nil
  have "renderLines rt config b emojis cw (fitToWidth rt bg cw) h w [] lines random
      = Inr (lines @ [], random) \<and> length ([]::jsstring list) = length ([]::nat list)
        \<and> (\<forall>l \<in> set []. cellsLine rt cw w l)"
    by simp
  then show ?case by blast
next
  case (Cons row rows)
  from renderCells_shape [OF assms, of rt b cw bg h w row "[0..<w]" "[]" random]
  obtain glyphs r1 where c: "renderCells rt config b emojis cw (fitToWidth rt bg cw) h w row [0..<w] [] random
      = Inr (concat (map (\<lambda>g. fitToWidth rt g cw) glyphs), r1)" "length glyphs = w"
    by auto
  define l where "l = concat (map (\<lambda>g. fitToWidth rt g cw) glyphs)"
  have cl: "cellsLine rt cw w l" unfolding cellsLine_def l_def using c(2) by blast
  from Cons.IH [of "lines @ [l]" r1]
  obtain ls r2 where r: "renderLines rt config b emojis cw (fitToWidth rt bg cw) h w rows (lines @ [l]) r1
      = Inr ((lines @ [l]) @ ls, r2)" "length ls = length rows" "\<forall>l \<in> set ls. cellsLine rt cw w l"
    by blast
  have "renderLines rt config b emojis cw (fitToWidth rt bg cw) h w (row # rows) lines random
      = renderLines rt config b emojis cw (fitToWidth rt bg cw) h w rows (lines @ [l]) r1"
    using c(1) by (simp add: l_def)
  with r cl have "renderLines rt config b emojis cw (fitToWidth rt bg cw) h w (row # rows) lines random
      = Inr (lines @ (l # ls), r2) \<and> length (l # ls) = length (row # rows)
        \<and> (\<forall>x \<in> set (l # ls). cellsLine rt cw w x)"
    by simp
  then show ?case by blast
qed

lemma le_cellWidthOf: "g \<in> set candidates \<Longrightarrow> getDisplayWidth rt g \<le> cellWidthOf rt candidates"
proof -
  assume "g \<in> set candidates"
  then have "getDisplayWidth rt g \<in> set (map (getDisplayWidth rt) candidates)" by simp
  then have "getDisplayWidth rt g \<le> maxOf (map (getDisplayWidth rt) candidates)" by (rule le_maxOf)
  then show ?thesis by (simp add: cellWidthOf_def)
qed

text \<open>
  What a returned row is made of: one cell for each column, in order, the glyph being a
  candidate where the bitmap is set and the background elsewhere.
\<close>

lemma arrayGet_Some: "arrayGet xs i = Some x \<Longrightarrow> x \<in> set xs"
  by (auto simp: arrayGet_def split: if_splits)

lemma selectEmoji_Some:
  "selectEmoji emojis row col totalRows totalCols m random = (Some e, random') \<Longrightarrow> e \<in> set emojis"
  by (auto simp: selectEmoji_def dest: arrayGet_Some split: if_splits EmojiMode.splits prod.splits)

lemma pick_Some:
  assumes "(if theme config = Github
         then (case calculateGitHubIntensity rt row col h w random of
                 (i, random') \<Rightarrow> (arrayGet emojis i, random'))
         else selectEmoji emojis row col h w (mode config) random) = (Some e, random')"
  shows "e \<in> set emojis"
  using assms by (auto dest: arrayGet_Some selectEmoji_Some split: if_splits prod.splits)

lemma renderCells_cells:
  assumes "renderCells rt config b emojis cw (fitToWidth rt bg cw) h w row cols line random
             = Inr (line', random')"
  shows "\<exists>glyphs. line' = line @ concat (map (\<lambda>g. fitToWidth rt g cw) glyphs)
           \<and> list_all2 (\<lambda>col g. if isForeground b row col then g \<in> set emojis else g = bg)
                cols glyphs"
  using assms
proof (induction cols arbitrary: line random)
  case Nil
  then have "line' = line @ concat (map (\<lambda>g. fitToWidth rt g cw) [])
     \<and> list_all2 (\<lambda>col g. if isForeground b row col then g \<in> set emojis else g = bg) [] []"
    by simp
  then show ?case by blast
next
  case (Cons col cols)
  show ?case
  proof (cases "isForeground b row col")
    case True
    then have fg: "col < length (b ! row) \<and> b ! row ! col" by (simp add: isForeground_def)
    obtain oe r1 where p: "(if theme config = Github
         then (case calculateGitHubIntensity rt row col h w random of
                 (i, random') \<Rightarrow> (arrayGet emojis i, random'))
         else selectEmoji emojis row col h w (mode config) random) = (oe, r1)"
      by (cases "(if theme config = Github
         then (case calculateGitHubIntensity rt row col h w random of
                 (i, random') \<Rightarrow> (arrayGet emojis i, random'))
         else selectEmoji emojis row col h w (mode config) random)")
    show ?thesis
    proof (cases oe)
      case None
      have "renderCells rt config b emojis cw (fitToWidth rt bg cw) h w row (col # cols) line random
          = Inl TypeError"
        using fg p None by (simp del: split_paired_Ex)
      with Cons.prems show ?thesis by simp
    next
      case (Some e)
      from p [unfolded Some] have mem: "e \<in> set emojis" by (rule pick_Some)
      have "renderCells rt config b emojis cw (fitToWidth rt bg cw) h w row (col # cols) line random
          = renderCells rt config b emojis cw (fitToWidth rt bg cw) h w row cols
              (line @ fitToWidth rt e cw) r1"
        using fg p Some by (simp del: split_paired_Ex)
      with Cons.prems have "renderCells rt config b emojis cw (fitToWidth rt bg cw) h w row cols
              (line @ fitToWidth rt e cw) r1 = Inr (line', random')"
        by simp
      from Cons.IH [OF this] obtain glyphs where
        g: "line' = (line @ fitToWidth rt e cw) @ concat (map (\<lambda>g. fitToWidth rt g cw) glyphs)"
           "list_all2 (\<lambda>col g. if isForeground b row col then g \<in> set emojis else g = bg) cols glyphs"
        by blast
      from g mem True have "line' = line @ concat (map (\<lambda>g. fitToWidth rt g cw) (e # glyphs))
         \<and> list_all2 (\<lambda>col g. if isForeground b row col then g \<in> set emojis else g = bg)
              (col # cols) (e # glyphs)"
        by simp
      then show ?thesis by blast
    qed
  next
    case False
    then have bgc: "\<not> (col < length (b ! row) \<and> b ! row ! col)" by (simp add: isForeground_def)
    have "renderCells rt config b emojis cw (fitToWidth rt bg cw) h w row (col # cols) line random
        = renderCells rt config b emojis cw (fitToWidth rt bg cw) h w row cols
            (line @ fitToWidth rt bg cw) random"
      using bgc by auto
    with Cons.prems have "renderCells rt config b emojis cw (fitToWidth rt bg cw) h w row cols
            (line @ fitToWidth rt bg cw) random = Inr (line', random')"
      by simp
    from Cons.IH [OF this] obtain glyphs where
      g: "line' = (line @ fitToWidth rt bg cw) @ concat (map (\<lambda>g. fitToWidth rt g cw) glyphs)"
         "list_all2 (\<lambda>col g. if isForeground b row col then g \<in> set emojis else g = bg) cols glyphs"
      by blast
    from g False have "line' = line @ concat (map (\<lambda>g. fitToWidth rt g cw) (bg # glyphs))
       \<and> list_all2 (\<lambda>col g. if isForeground b row col then g \<in> set emojis else g = bg)
            (col # cols) (bg # glyphs)"
      by simp
    then show ?thesis by blast
  qed
qed

lemma renderLines_cells:
  assumes "renderLines rt config b emojis cw (fitToWidth rt bg cw) h w rows lines random
             = Inr (lines', random')"
  shows "\<exists>grid. lines' = lines @ map (\<lambda>glyphs. concat (map (\<lambda>g. fitToWidth rt g cw) glyphs)) grid
           \<and> list_all2 (\<lambda>row glyphs.
                 list_all2 (\<lambda>col g. if isForeground b row col then g \<in> set emojis else g = bg)
                   [0..<w] glyphs) rows grid"
  using assms
proof (induction rows arbitrary: lines random)
  case Nil
  then have "lines' = lines @ map (\<lambda>glyphs. concat (map (\<lambda>g. fitToWidth rt g cw) glyphs)) []
     \<and> list_all2 (\<lambda>row glyphs.
                 list_all2 (\<lambda>col g. if isForeground b row col then g \<in> set emojis else g = bg)
                   [0..<w] glyphs) [] []"
    by simp
  then show ?case by blast
next
  case (Cons row rows)
  show ?case
  proof (cases "renderCells rt config b emojis cw (fitToWidth rt bg cw) h w row [0..<w] [] random")
    case (Inl e)
    with Cons.prems show ?thesis by simp
  next
    case (Inr res)
    obtain l r1 where res: "res = (l, r1)" by (cases res)
    from Inr res have c: "renderCells rt config b emojis cw (fitToWidth rt bg cw) h w row [0..<w] [] random
        = Inr (l, r1)" by simp
    from renderCells_cells [OF c] obtain glyphs where
      g: "l = concat (map (\<lambda>g. fitToWidth rt g cw) glyphs)"
         "list_all2 (\<lambda>col g. if isForeground b row col then g \<in> set emojis else g = bg) [0..<w] glyphs"
      by auto
    from Cons.prems c have "renderLines rt config b emojis cw (fitToWidth rt bg cw) h w rows
        (lines @ [l]) r1 = Inr (lines', random')"
      by simp
    from Cons.IH [OF this] obtain grid where
      r: "lines' = (lines @ [l]) @ map (\<lambda>glyphs. concat (map (\<lambda>g. fitToWidth rt g cw) glyphs)) grid"
         "list_all2 (\<lambda>row glyphs.
                 list_all2 (\<lambda>col g. if isForeground b row col then g \<in> set emojis else g = bg)
                   [0..<w] glyphs) rows grid"
      by blast
    from r g have "lines' = lines @ map (\<lambda>glyphs. concat (map (\<lambda>g. fitToWidth rt g cw) glyphs)) (glyphs # grid)
       \<and> list_all2 (\<lambda>row glyphs.
                 list_all2 (\<lambda>col g. if isForeground b row col then g \<in> set emojis else g = bg)
                   [0..<w] glyphs) (row # rows) (glyphs # grid)"
      by simp
    then show ?thesis by blast
  qed
qed

lemma renderBitmap_Inr:
  assumes "renderBitmap rt now b config = Inr result"
    and "candidates = (if theme config = Github then getThemeEmojis rt else foregroundEmojis config)"
    and "bg = (if backgroundEmoji config \<noteq> [] then backgroundEmoji config else getBackgroundEmoji rt)"
    and "cw = cellWidthOf rt candidates"
    and "c = (if length b > 0 then length (b ! 0) else 0)"
  shows "\<exists>ls random'.
      renderLines rt config b candidates cw (fitToWidth rt bg cw) (length b) c [0..<length b] []
        (SeededRandom_new (Some 42) now) = Inr (ls, random')
      \<and> resultText result = joinWith [newline] ls"
proof -
  have sample: "(if theme config = Github then candidates else foregroundEmojis config) = candidates"
    using assms(2) by simp
  show ?thesis
  proof (cases "renderLines rt config b candidates cw (fitToWidth rt bg cw) (length b) c [0..<length b] []
        (SeededRandom_new (Some 42) now)")
    case (Inl e)
    have "renderBitmap rt now b config = Inl e"
      unfolding renderBitmap_def Let_def assms(2) [symmetric] sample assms(3) [symmetric]
        assms(4) [symmetric] assms(5) [symmetric] Inl by simp
    with assms(1) show ?thesis by simp
  next
    case (Inr res)
    obtain ls r where res: "res = (ls, r)" by (cases res)
    have "renderBitmap rt now b config
        = Inr \<lparr> resultText = joinWith [newline] ls, resultBackgroundEmoji = bg,
                resultBitmap = b, resultWidth = c, resultHeight = length b \<rparr>"
      unfolding renderBitmap_def Let_def assms(2) [symmetric] sample assms(3) [symmetric]
        assms(4) [symmetric] assms(5) [symmetric] Inr res by simp
    with assms(1) have "resultText result = joinWith [newline] ls" by auto
    with Inr res show ?thesis by simp
  qed
qed

text \<open>
  C2. The display width of a line is counted cell by cell, as the padding loop counts
  it: the display width of the glyph of the cell and one column for each space that
  follows it. The candidates are the foreground set, under the theme \<open>github\<close> its
  palette; the host's segmenter finds nothing in the empty string. Whenever the
  candidates are not empty (the palette has its five levels), \<open>renderBitmap\<close> returns a
  text, and every text it returns has one line per bitmap row, each line being the \<open>c\<close>
  cells of its row: the cell of a foreground position holds a candidate, the cell of
  any other position the background. The cell width is the largest display width of a
  candidate, at least 2; every cell has display width exactly the cell width, so every
  line has display width \<open>c\<close> times the cell width; a glyph wider than the cell width
  is replaced by that many spaces, a glyph that is not wider, as every candidate is, is
  followed by spaces up to the cell width.
\<close>

theorem renderBitmap_line_width:
  assumes "candidates = (if theme config = Github then getThemeEmojis rt else foregroundEmojis config)"
    and "bg = (if backgroundEmoji config \<noteq> [] then backgroundEmoji config else getBackgroundEmoji rt)"
    and "cw = cellWidthOf rt candidates"
    and "c = (if length b > 0 then length (b ! 0) else 0)"
    and "getGraphemes rt [] = []"
  shows "(candidates \<noteq> [] \<and> (theme config = Github \<longrightarrow> 5 \<le> length candidates)
            \<longrightarrow> (\<exists>result. renderBitmap rt now b config = Inr result))
     \<and> (\<forall>result. renderBitmap rt now b config = Inr result \<longrightarrow>
          (\<exists>glyphs.
              resultText result
                = joinWith [newline]
                    (map (\<lambda>row. concat (map (\<lambda>g. cellText (fitCell rt cw g)) row)) glyphs)
              \<and> length glyphs = length b
              \<and> (\<forall>row < length b.
                    length (glyphs ! row) = c
                    \<and> lineDisplayWidth rt (map (fitCell rt cw) (glyphs ! row)) = c * cw
                    \<and> (\<forall>col < c. if isForeground b row col
                                   then glyphs ! row ! col \<in> set candidates
                                   else glyphs ! row ! col = bg))))
     \<and> cw = max (maxOf (map (getDisplayWidth rt) candidates)) 2
     \<and> (\<forall>g. cellDisplayWidth rt (fitCell rt cw g) = cw
             \<and> fitToWidth rt g cw = cellText (fitCell rt cw g))
     \<and> (\<forall>g. cw < getDisplayWidth rt g \<longrightarrow> fitToWidth rt g cw = replicate cw space)
     \<and> (\<forall>g. getDisplayWidth rt g \<le> cw \<longrightarrow>
              fitToWidth rt g cw = g @ replicate (cw - getDisplayWidth rt g) space)
     \<and> (\<forall>g \<in> set candidates. getDisplayWidth rt g \<le> cw)"
proof (intro conjI allI impI ballI)
  assume a: "candidates \<noteq> [] \<and> (theme config = Github \<longrightarrow> 5 \<le> length candidates)"
  then have ne: "candidates \<noteq> []" and th: "theme config = Github \<longrightarrow> 5 \<le> length candidates"
    by simp_all
  from renderLines_shape [OF ne th, of rt b cw bg "length b" c "[0..<length b]" "[]"
      "SeededRandom_new (Some 42) now"]
  obtain ls r where r: "renderLines rt config b candidates cw (fitToWidth rt bg cw) (length b) c
        [0..<length b] [] (SeededRandom_new (Some 42) now) = Inr (ls, r)"
    by auto
  have sample: "(if theme config = Github then candidates else foregroundEmojis config) = candidates"
    using assms(1) by simp
  have "renderBitmap rt now b config
        = Inr \<lparr> resultText = joinWith [newline] ls, resultBackgroundEmoji = bg,
                resultBitmap = b, resultWidth = c, resultHeight = length b \<rparr>"
    unfolding renderBitmap_def Let_def assms(1) [symmetric] sample assms(2) [symmetric]
      assms(3) [symmetric] assms(4) [symmetric] r by simp
  then show "\<exists>result. renderBitmap rt now b config = Inr result" by blast
next
  fix result
  assume "renderBitmap rt now b config = Inr result"
  from renderBitmap_Inr [OF this assms(1-4)] obtain ls r where
    r: "renderLines rt config b candidates cw (fitToWidth rt bg cw) (length b) c [0..<length b] []
        (SeededRandom_new (Some 42) now) = Inr (ls, r)"
    and t: "resultText result = joinWith [newline] ls"
    by blast
  from renderLines_cells [OF r] obtain glyphs where
    ls: "ls = map (\<lambda>glyphs. concat (map (\<lambda>g. fitToWidth rt g cw) glyphs)) glyphs"
    and g: "list_all2 (\<lambda>row glyphs.
                 list_all2 (\<lambda>col g. if isForeground b row col then g \<in> set candidates else g = bg)
                   [0..<c] glyphs) [0..<length b] glyphs"
    by auto
  have f: "(\<lambda>g. fitToWidth rt g cw) = (\<lambda>g. cellText (fitCell rt cw g))"
    using fitToWidth_fitCell [OF assms(5)] by auto
  have len: "length glyphs = length b" using g by (auto dest: list_all2_lengthD)
  have rows: "length (glyphs ! row) = c
        \<and> lineDisplayWidth rt (map (fitCell rt cw) (glyphs ! row)) = c * cw
        \<and> (\<forall>col < c. if isForeground b row col
                       then glyphs ! row ! col \<in> set candidates
                       else glyphs ! row ! col = bg)" if "row < length b" for row
  proof -
    from g that have "list_all2 (\<lambda>col g. if isForeground b row col then g \<in> set candidates else g = bg)
                   [0..<c] (glyphs ! row)"
      by (auto simp: list_all2_conv_all_nth)
    then have l: "length (glyphs ! row) = c"
      and n: "\<forall>col < c. if isForeground b row col
                       then glyphs ! row ! col \<in> set candidates
                       else glyphs ! row ! col = bg"
      by (auto simp: list_all2_conv_all_nth)
    from l lineDisplayWidth_fitCell [OF assms(5), of cw "glyphs ! row"] n show ?thesis by simp
  qed
  have "resultText result
          = joinWith [newline] (map (\<lambda>row. concat (map (\<lambda>g. cellText (fitCell rt cw g)) row)) glyphs)"
    unfolding t ls f ..
  with len rows show "\<exists>glyphs.
              resultText result
                = joinWith [newline]
                    (map (\<lambda>row. concat (map (\<lambda>g. cellText (fitCell rt cw g)) row)) glyphs)
              \<and> length glyphs = length b
              \<and> (\<forall>row < length b.
                    length (glyphs ! row) = c
                    \<and> lineDisplayWidth rt (map (fitCell rt cw) (glyphs ! row)) = c * cw
                    \<and> (\<forall>col < c. if isForeground b row col
                                   then glyphs ! row ! col \<in> set candidates
                                   else glyphs ! row ! col = bg))"
    by blast
next
  show "cw = max (maxOf (map (getDisplayWidth rt) candidates)) 2"
    by (simp add: assms(3) cellWidthOf_def)
next
  fix g
  show "cellDisplayWidth rt (fitCell rt cw g) = cw" by (rule fitCell_width [OF assms(5)])
  show "fitToWidth rt g cw = cellText (fitCell rt cw g)" by (rule fitToWidth_fitCell [OF assms(5)])
next
  fix g
  assume "cw < getDisplayWidth rt g"
  then show "fitToWidth rt g cw = replicate cw space"
    by (simp add: fitToWidth_fitCell [OF assms(5)] fitCell_def cellText_def)
next
  fix g
  assume "getDisplayWidth rt g \<le> cw"
  then show "fitToWidth rt g cw = g @ replicate (cw - getDisplayWidth rt g) space"
    by (simp add: fitToWidth_fitCell [OF assms(5)] fitCell_def cellText_def)
next
  fix g
  assume "g \<in> set candidates"
  then show "getDisplayWidth rt g \<le> cw" unfolding assms(3) by (rule le_cellWidthOf)
qed

lemmas render_defs = renderBitmap_def cellWidthOf_def maxOf_def fitToWidth_def padToWidth_def
  padLoop_eq selectEmoji_def arrayGet_def SeededRandom_new_def aliasConfig_def space_def newline_def

theorem renderBitmap_line_width_witness:
  "getGraphemes sampleRuntime [] = []
   \<and> foregroundEmojis aliasConfig \<noteq> []
   \<and> theme aliasConfig \<noteq> Github
   \<and> cellWidthOf sampleRuntime (foregroundEmojis aliasConfig) = 2
   \<and> renderBitmap sampleRuntime 0 [[True, True], [True, False]] aliasConfig
       = Inr \<lparr> resultText = [0x3A, 0x61, 0x3A, 0x3A, 0x61, 0x3A, 0x0A, 0x3A, 0x61, 0x3A, 0x20, 0x20],
               resultBackgroundEmoji = [0x20], resultBitmap = [[True, True], [True, False]],
               resultWidth = 2, resultHeight = 2 \<rparr>
   \<and> (\<exists>glyphs.
         [0x3A, 0x61, 0x3A, 0x3A, 0x61, 0x3A, 0x0A, 0x3A, 0x61, 0x3A, 0x20, 0x20]
           = joinWith [newline]
               (map (\<lambda>row. concat (map (\<lambda>g. cellText (fitCell sampleRuntime 2 g)) row)) glyphs)
         \<and> length glyphs = 2
         \<and> lineDisplayWidth sampleRuntime (map (fitCell sampleRuntime 2) (glyphs ! 0)) = 2 * 2
         \<and> lineDisplayWidth sampleRuntime (map (fitCell sampleRuntime 2) (glyphs ! 1)) = 2 * 2
         \<and> glyphs ! 1 ! 0 \<in> set (foregroundEmojis aliasConfig)
         \<and> glyphs ! 1 ! 1 = [0x20])
   \<and> fitToWidth sampleRuntime [0x20] 2 = [0x20, 0x20]
   \<and> 2 < getDisplayWidth sampleRuntime [0x4E00, 0x4E00]
   \<and> fitToWidth sampleRuntime [0x4E00, 0x4E00] 2 = [0x20, 0x20]
   \<and> getDisplayWidth sampleRuntime [0x3A, 0x61, 0x3A] \<le> 2"
proof -
  let ?b = "[[True, True], [True, False]]"
  have c: "foregroundEmojis aliasConfig
      = (if theme aliasConfig = Github then getThemeEmojis sampleRuntime else foregroundEmojis aliasConfig)"
    by (simp add: aliasConfig_def)
  have bg: "[0x20] = (if backgroundEmoji aliasConfig \<noteq> [] then backgroundEmoji aliasConfig
             else getBackgroundEmoji sampleRuntime)"
    by (simp add: aliasConfig_def)
  have cw: "cellWidthOf sampleRuntime (foregroundEmojis aliasConfig) = 2"
    by (simp add: cellWidthOf_def maxOf_def aliasConfig_def width_alias)
  have w: "(2::nat) = (if length ?b > 0 then length (?b ! 0) else 0)" by simp
  have g: "getGraphemes sampleRuntime [] = []" by (simp add: getGraphemes_def sampleRuntime_def)
  have n: "foregroundEmojis aliasConfig \<noteq> []" by (simp add: aliasConfig_def)
  have t: "theme aliasConfig \<noteq> Github" by (simp add: aliasConfig_def)
  have e: "renderBitmap sampleRuntime 0 ?b aliasConfig
     = Inr \<lparr> resultText = [0x3A, 0x61, 0x3A, 0x3A, 0x61, 0x3A, 0x0A, 0x3A, 0x61, 0x3A, 0x20, 0x20],
             resultBackgroundEmoji = [0x20], resultBitmap = ?b,
             resultWidth = 2, resultHeight = 2 \<rparr>"
    by (simp add: render_defs width_alias width_space Let_def upt_rec)
  have fg: "isForeground ?b 1 0" "\<not> isForeground ?b 1 1" by (simp_all add: isForeground_def)
  have sp: "getDisplayWidth sampleRuntime [0x20] \<le> 2" by (simp add: width_space)
  note inst = renderBitmap_line_width [OF c bg cw [symmetric] w g, of 0]
  from inst e obtain glyphs where G:
    "[0x3A, 0x61, 0x3A, 0x3A, 0x61, 0x3A, 0x0A, 0x3A, 0x61, 0x3A, 0x20, 0x20]
       = joinWith [newline]
           (map (\<lambda>row. concat (map (\<lambda>g. cellText (fitCell sampleRuntime 2 g)) row)) glyphs)"
    "length glyphs = length ?b"
    "\<forall>row < length ?b.
        length (glyphs ! row) = 2
        \<and> lineDisplayWidth sampleRuntime (map (fitCell sampleRuntime 2) (glyphs ! row)) = 2 * 2
        \<and> (\<forall>col < 2. if isForeground ?b row col
                       then glyphs ! row ! col \<in> set (foregroundEmojis aliasConfig)
                       else glyphs ! row ! col = [0x20])"
    by fastforce
  from G(3) have r0: "lineDisplayWidth sampleRuntime (map (fitCell sampleRuntime 2) (glyphs ! 0)) = 2 * 2"
    and r1: "lineDisplayWidth sampleRuntime (map (fitCell sampleRuntime 2) (glyphs ! 1)) = 2 * 2"
    and c1: "\<forall>col < 2. if isForeground ?b 1 col
                       then glyphs ! 1 ! col \<in> set (foregroundEmojis aliasConfig)
                       else glyphs ! 1 ! col = [0x20]"
    by simp_all
  have lt: "(0::nat) < 2" "(1::nat) < 2" by simp_all
  from c1 [rule_format, OF lt(1)] fg(1)
  have c10: "glyphs ! 1 ! 0 \<in> set (foregroundEmojis aliasConfig)" by (simp only: if_True)
  from c1 [rule_format, OF lt(2)] fg(2)
  have c11: "glyphs ! 1 ! 1 = [0x20]" by (simp only: if_False)
  from inst sp have "fitToWidth sampleRuntime [0x20] 2
      = [0x20] @ replicate (2 - getDisplayWidth sampleRuntime [0x20]) space"
    by blast
  then have f: "fitToWidth sampleRuntime [0x20] 2 = [0x20, 0x20]"
    by (simp add: width_space space_def)
  from G(1,2) have ex: "\<exists>glyphs.
         [0x3A, 0x61, 0x3A, 0x3A, 0x61, 0x3A, 0x0A, 0x3A, 0x61, 0x3A, 0x20, 0x20]
           = joinWith [newline]
               (map (\<lambda>row. concat (map (\<lambda>g. cellText (fitCell sampleRuntime 2 g)) row)) glyphs)
         \<and> length glyphs = 2
         \<and> lineDisplayWidth sampleRuntime (map (fitCell sampleRuntime 2) (glyphs ! 0)) = 2 * 2
         \<and> lineDisplayWidth sampleRuntime (map (fitCell sampleRuntime 2) (glyphs ! 1)) = 2 * 2
         \<and> glyphs ! 1 ! 0 \<in> set (foregroundEmojis aliasConfig)
         \<and> glyphs ! 1 ! 1 = [0x20]"
    using r0 r1 c10 c11 by (intro exI [of _ glyphs]) simp
  have wd: "2 < getDisplayWidth sampleRuntime [0x4E00, 0x4E00]" by (simp add: width_wide)
  with inst have "fitToWidth sampleRuntime [0x4E00, 0x4E00] 2 = replicate 2 space" by blast
  then have f': "fitToWidth sampleRuntime [0x4E00, 0x4E00] 2 = [0x20, 0x20]"
    by (simp add: space_def numeral_2_eq_2)
  have "[0x3A, 0x61, 0x3A] \<in> set (foregroundEmojis aliasConfig)" by (simp add: aliasConfig_def)
  with inst have cand: "getDisplayWidth sampleRuntime [0x3A, 0x61, 0x3A] \<le> 2" by blast
  from g n t cw e ex f wd f' cand show ?thesis by blast
qed

text \<open>
  C1. The output of \<open>renderBitmap\<close> is a function of the bitmap and the configuration
  alone: it does not depend on the clock, the only source of a seed other than the
  fixed one, because every call creates its generator with seed 42; and the sequence
  of draws of a generator depends on its seed only.
\<close>

theorem renderBitmap_deterministic:
  "renderBitmap rt now b config = renderBitmap rt now' b config
   \<and> SeededRandom_new (Some 42) now = \<lparr> seed = 42 \<rparr>
   \<and> draws n (SeededRandom_new (Some s) now) = draws n (SeededRandom_new (Some s) now')"
  by (simp add: renderBitmap_def SeededRandom_new_def)

theorem renderBitmap_deterministic_witness:
  "renderBitmap sampleRuntime 0 [[True, True], [True, False]] aliasConfig
     = renderBitmap sampleRuntime 1700000000000 [[True, True], [True, False]] aliasConfig
   \<and> resultText (projr (renderBitmap sampleRuntime 1700000000000 [[True, True], [True, False]] aliasConfig))
     = [0x3A, 0x61, 0x3A, 0x3A, 0x61, 0x3A, 0x0A, 0x3A, 0x61, 0x3A, 0x20, 0x20]"
proof -
  have "renderBitmap sampleRuntime 0 [[True, True], [True, False]] aliasConfig
     = Inr \<lparr> resultText = [0x3A, 0x61, 0x3A, 0x3A, 0x61, 0x3A, 0x0A, 0x3A, 0x61, 0x3A, 0x20, 0x20],
             resultBackgroundEmoji = [0x20], resultBitmap = [[True, True], [True, False]],
             resultWidth = 2, resultHeight = 2 \<rparr>"
    by (simp add: render_defs width_alias width_space Let_def upt_rec)
  note e0 = this
  from renderBitmap_deterministic [of sampleRuntime 0 "[[True, True], [True, False]]" aliasConfig
      1700000000000 0 0]
  have d: "renderBitmap sampleRuntime 0 [[True, True], [True, False]] aliasConfig
     = renderBitmap sampleRuntime 1700000000000 [[True, True], [True, False]] aliasConfig"
    by blast
  from d [symmetric] e0
  have "renderBitmap sampleRuntime 1700000000000 [[True, True], [True, False]] aliasConfig
     = Inr \<lparr> resultText = [0x3A, 0x61, 0x3A, 0x3A, 0x61, 0x3A, 0x0A, 0x3A, 0x61, 0x3A, 0x20, 0x20],
             resultBackgroundEmoji = [0x20], resultBitmap = [[True, True], [True, False]],
             resultWidth = 2, resultHeight = 2 \<rparr>"
    by (rule trans)
  then have "resultText (projr (renderBitmap sampleRuntime 1700000000000 [[True, True], [True, False]] aliasConfig))
     = [0x3A, 0x61, 0x3A, 0x3A, 0x61, 0x3A, 0x0A, 0x3A, 0x61, 0x3A, 0x20, 0x20]"
    by simp
  with d show ?thesis by blast
qed

end
